theory Spec2Isabelle
  imports Complex_Main "HOL-Library.Word"
begin

section \<open>The MPI tree client of \<^verbatim>\<open>src/caffe/internode/tree_cluster.cpp\<close>\<close>

text \<open>
  The class \<^verbatim>\<open>MpiTreeClient\<close> places every MPI process on a node of an implicit binary
  tree, keeps a ledger of non-blocking MPI operations and polls it. The embedding below
  follows the class member by member. Calls that leave the class (MPI, the handlers, the
  callbacks of the callers, the log) are recorded in a trace, in the order the code makes
  them. The handlers and the callbacks of the callers are code outside the class: a call
  of one leaves its event in the trace, and it makes no call on the client while it runs.
\<close>

subsection \<open>Integer types\<close>

text \<open>
  \<^verbatim>\<open>int\<close> is a 32-bit two's complement word, read with \<^const>\<open>sint\<close> and compared with
  \<open><s\<close>; \<^verbatim>\<open>size_t\<close> is a 64-bit unsigned word.

  Modelled from the spec: the typedef \<^verbatim>\<open>RemoteId\<close> is declared in a header that is not
  among the sources. The spec calls a rank an integer identifier in \<open>[0, total_nodes)\<close>;
  the code compares it with \<^verbatim>\<open>int\<close> values and stores it in vectors, and it is taken
  here as the unsigned 64-bit \<^verbatim>\<open>size_t\<close>. The ranks MPI hands out are non-negative
  \<^verbatim>\<open>int\<close> values, which is what \<open>mpi_rank\<close> below says.
\<close>

type_synonym c_int = "32 word"
type_synonym size_t = "64 word"
type_synonym RemoteId = "64 word"
type_synonym byte = "8 word"

definition MSG_TAG :: c_int where
  "MSG_TAG = 1972"

definition mpi_rank :: "RemoteId \<Rightarrow> bool" where
  "mpi_rank r = (unat r < 2 ^ 31)"

subsection \<open>Topology: \<^verbatim>\<open>children()\<close> and \<^verbatim>\<open>parent()\<close>\<close>

text \<open>
  Both methods read the rank of the process from \<^verbatim>\<open>id()\<close> and \<^verbatim>\<open>children()\<close> reads
  the size of the communicator from \<^verbatim>\<open>mpi_get_comm_size()\<close>; the two values are the
  parameters here, under the names of the local variables that hold them. In
  \<^verbatim>\<open>parent * 2 + 1 < count\<close> the \<^verbatim>\<open>int\<close> is converted to the unsigned type (sign
  extension, \<^const>\<open>scast\<close>) and the comparison is unsigned; \<^verbatim>\<open>count < 2\<close> is signed.
\<close>

definition children :: "RemoteId \<Rightarrow> c_int \<Rightarrow> RemoteId list" where
  "children parent count =
     (if count <s 2 then []
      else (if parent * 2 + 1 < scast count then [parent * 2 + 1] else []) @
           (if parent * 2 + 2 < scast count then [parent * 2 + 2] else []))"

text \<open>
  \<^verbatim>\<open>floor( (current-1)/2 )\<close> divides in the integer type, converts the quotient to
  \<^verbatim>\<open>double\<close>, applies \<^verbatim>\<open>floor\<close> and converts back. \<open>to_double n\<close> is the value of the
  double nearest to the integer \<open>n\<close> (53 bits of precision, ties to even); it is an
  integer, so \<^verbatim>\<open>floor\<close> returns it unchanged. The quotient is below \<open>2 ^ 63\<close>, so the
  rounded value fits the unsigned type again.
\<close>

fun bit_width :: "nat \<Rightarrow> nat" where
  "bit_width n = (if n = 0 then 0 else Suc (bit_width (n div 2)))"

declare bit_width.simps [simp del]

definition to_double :: "nat \<Rightarrow> nat" where
  "to_double n =
     (if n < 2 ^ 53 then n
      else let e = bit_width n - 53; q = n div 2 ^ e; r = n mod 2 ^ e; h = 2 ^ (e - 1)
           in (if h < r \<or> (r = h \<and> odd q) then q + 1 else q) * 2 ^ e)"

definition parent :: "RemoteId \<Rightarrow> RemoteId" where
  "parent current =
     (if current = 0 then 0 else of_nat (to_double (unat ((current - 1) div 2))))"

subsection \<open>Requests, the transport and the trace\<close>

text \<open>
  The three kinds of function object stored in \<^verbatim>\<open>MpiRequest::callback\<close>: the bound
  member \<^verbatim>\<open>received\<close> (\<^verbatim>\<open>set_recv\<close>), the caller's \<^verbatim>\<open>SentCallback\<close> bound to its first
  argument (\<^verbatim>\<open>async_send_to_parent\<close>), and a copy of a \<^verbatim>\<open>BroadcastCallback\<close>
  (\<^verbatim>\<open>async_send_to_children\<close>). Callers' callbacks and handlers are named by numbers;
  the copies of one \<^verbatim>\<open>BroadcastCallback\<close> share the number of their common state.
\<close>

datatype RequestCallback =
    bind_received
  | bind_callback nat
  | broadcast_callback nat

text \<open>
  \<^verbatim>\<open>struct MpiRequest\<close>. The field \<open>req\<close> is the handle of the MPI operation: its
  position in the list of operations posted to MPI.
\<close>

record MpiRequest =
  req :: nat
  callback :: RequestCallback
  ok :: bool
  sender :: c_int
  size' :: c_int

text \<open>The calls that post an operation: \<^verbatim>\<open>MPI_Irecv\<close> with the capacity of the buffer,
  \<^verbatim>\<open>MPI_Isend\<close> with the bytes, their number, the destination and the tag.\<close>

datatype mpi_call =
    MPI_Irecv c_int
  | MPI_Isend "byte list" c_int c_int c_int

text \<open>
  What \<^verbatim>\<open>MPI_Test\<close> followed by \<^verbatim>\<open>MPI_Get_count\<close> report for a handle: the flag is
  unset (\<open>Pending\<close>), or it is set and there are the result of the test
  (\<^verbatim>\<open>result == MPI_SUCCESS\<close>), \<^verbatim>\<open>status.MPI_SOURCE\<close>, the result of
  \<^verbatim>\<open>MPI_Get_count\<close> and the count. A transport gives the answer for every handle during
  one tick of the poller.
\<close>

datatype mpi_test =
    Pending
  | Complete bool c_int bool c_int

type_synonym transport = "nat \<Rightarrow> mpi_test"

text \<open>
  Modelled from the spec: the class template \<^verbatim>\<open>BroadcastCallback\<close> of
  \<^verbatim>\<open>caffe/internode/broadcast_callback.hpp\<close>, which is not among the sources. The spec
  (Fan-out Aggregator): the sends to the children are each wrapped with a shared counter;
  each child's completion decrements the counter and forwards its outcome into an
  accumulator; \<open>on_done\<close> fires exactly once, when the counter reaches zero, with the
  logical AND of all child outcomes; a failed child send still decrements the counter;
  with an empty child list \<open>on_done\<close> fires immediately with success.
\<close>

record BroadcastCallback =
  counter :: int
  result :: bool
  on_done :: nat

datatype event =
    Invoke RequestCallback bool c_int c_int
  | received_from_parent nat "byte list" c_int
  | received_from_child nat "byte list" c_int c_int
  | Sent nat bool
  | Broadcast_done nat nat bool
  | LOG_ERROR string
  | LOG_WARNING string nat

text \<open>
  The events: \<open>Invoke cb ok size sender\<close> is the call
  \<^verbatim>\<open>it->callback(it->ok, it->size, it->sender)\<close> of the poller;
  \<open>received_from_parent h buffer size\<close> and \<open>received_from_child h buffer size sender\<close> are
  the calls of the two entry points of handler \<open>h\<close>, with the receive buffer they are
  given (the bytes MPI writes into it are not followed: the buffer of the state changes
  with \<^verbatim>\<open>set_buffer_size\<close> only); \<open>Sent cb ok\<close> is the call of the \<^verbatim>\<open>SentCallback\<close> \<open>cb\<close> given to
  \<^verbatim>\<open>async_send_to_parent\<close>; \<open>Broadcast_done b cb ok\<close> is the call of \<open>on_done\<close> by the
  aggregator \<open>b\<close>; the last two are lines of the log (\<^verbatim>\<open>DLOG\<close> lines are left out).
\<close>

subsection \<open>The state of \<^verbatim>\<open>MpiTreeClient\<close>\<close>

text \<open>
  The members \<open>handlers\<close>, \<open>requests\<close>, \<open>requests_to_process\<close>, \<open>buffer\<close> and
  \<open>main_thread_id\<close>, followed by the surroundings: the rank and the size MPI reports,
  the operations posted to MPI, the states shared by the copies of each
  \<^verbatim>\<open>BroadcastCallback\<close>, the number of \<^verbatim>\<open>poll_one\<close> tasks posted to the io service and
  the trace. The mutex is left out: the calls are taken one at a time.
\<close>

record MpiTreeClient =
  handlers :: "nat list"
  requests :: "MpiRequest list"
  requests_to_process :: "MpiRequest list"
  buffer :: "byte list"
  main_thread_id :: "nat option"
  mpi_current_proc_rank :: RemoteId
  mpi_comm_size :: c_int
  mpi_posted :: "mpi_call list"
  broadcasts :: "BroadcastCallback list"
  io_service_posted :: nat
  trace :: "event list"

definition id' :: "MpiTreeClient \<Rightarrow> RemoteId" where
  "id' c = mpi_current_proc_rank c"

definition total_nodes :: "MpiTreeClient \<Rightarrow> c_int" where
  "total_nodes c = mpi_comm_size c"

definition log :: "event list \<Rightarrow> MpiTreeClient \<Rightarrow> MpiTreeClient" where
  "log es c = c\<lparr>trace := trace c @ es\<rparr>"

definition post :: "MpiTreeClient \<Rightarrow> MpiTreeClient" where
  "post c = c\<lparr>io_service_posted := io_service_posted c + 1\<rparr>"

text \<open>The constructor: empty members, and one \<^verbatim>\<open>poll_one\<close> posted.\<close>

definition MpiTreeClient_new :: "RemoteId \<Rightarrow> c_int \<Rightarrow> MpiTreeClient" where
  "MpiTreeClient_new rank count =
     post \<lparr>handlers = [], requests = [], requests_to_process = [], buffer = [],
           main_thread_id = None, mpi_current_proc_rank = rank, mpi_comm_size = count,
           mpi_posted = [], broadcasts = [], io_service_posted = 0, trace = []\<rparr>"

subsection \<open>\<^verbatim>\<open>set_recv\<close>, \<^verbatim>\<open>received\<close>, \<^verbatim>\<open>is_ready\<close>\<close>

definition new_request :: "MpiTreeClient \<Rightarrow> RequestCallback \<Rightarrow> MpiRequest" where
  "new_request c cb =
     \<lparr>req = length (mpi_posted c), callback = cb, ok = False, sender = 0, size' = 0\<rparr>"

definition set_recv :: "MpiTreeClient \<Rightarrow> MpiTreeClient" where
  "set_recv c =
     (let request = new_request c bind_received
      in c\<lparr>mpi_posted := mpi_posted c @ [MPI_Irecv (of_nat (length (buffer c)))],
           requests := requests c @ [request]\<rparr>)"

text \<open>
  The parameters \<open>ok\<close>, \<open>size\<close> and \<open>sender\<close> are \<open>ok0\<close>, \<open>size0\<close> and \<open>sender0\<close>
  here and below (the plain names are the fields of a request). In
  \<^verbatim>\<open>sender == parent()\<close> the \<^verbatim>\<open>int\<close> is converted to the unsigned type. The two loops
  run over the indices of \<open>handlers\<close> and call the entries of the copy \<open>to_call\<close>.
\<close>

definition received :: "bool \<Rightarrow> c_int \<Rightarrow> c_int \<Rightarrow> MpiTreeClient \<Rightarrow> MpiTreeClient" where
  "received ok0 size0 sender0 c =
     set_recv
       (if ok0 then
          (let to_call = handlers c
           in if scast sender0 = parent (id' c)
              then log (map (\<lambda>i. received_from_parent (to_call ! i) (buffer c) size0)
                          [0 ..< length (handlers c)]) c
              else log (map (\<lambda>i. received_from_child (to_call ! i) (buffer c) size0 sender0)
                          [0 ..< length (handlers c)]) c)
        else log [LOG_ERROR ''RECEIVED FAILED''] c)"

text \<open>
  \<^verbatim>\<open>is_ready\<close> returns the flag, the request with the fields it has set, and the lines it
  has logged. \<open>ok\<close> is assigned twice: from the result of \<^verbatim>\<open>MPI_Test\<close>, then from the
  result of \<^verbatim>\<open>MPI_Get_count\<close>.
\<close>

definition is_ready :: "transport \<Rightarrow> MpiRequest \<Rightarrow> bool \<times> MpiRequest \<times> event list" where
  "is_ready MPI_Test request =
     (case MPI_Test (req request) of
        Pending \<Rightarrow> (False, request, [])
      | Complete test_ok source count_ok count \<Rightarrow>
          (let r1 = request\<lparr>ok := test_ok\<rparr>;
               l1 = (if \<not> ok r1 then [LOG_ERROR ''ERROR: ''] else []);
               r2 = r1\<lparr>sender := source\<rparr>;
               r3 = r2\<lparr>size' := count\<rparr>;
               r4 = r3\<lparr>ok := count_ok\<rparr>;
               l2 = (if \<not> ok r4 then [LOG_ERROR ''ERROR: ''] else [])
           in (True, r4, l1 @ l2)))"

subsection \<open>The fan-out aggregator\<close>

text \<open>
  Modelled from the spec: the operations of \<^verbatim>\<open>BroadcastCallback\<close> (see the record above).
  \<open>BroadcastCallback_new\<close> is the construction from the caller's callback;
  \<open>BroadcastCallback_wrap\<close> is the copy stored in the request of one child, which counts
  one more send; \<open>BroadcastCallback_call\<close> is the call of a copy on the completion of a
  child: the counter goes down, the outcome enters the accumulator, and \<open>on_done\<close> fires
  when the counter has reached zero; \<open>BroadcastCallback_issued\<close> is the end of the
  broadcast call, where \<open>on_done\<close> fires at once with success when there was no child.
  The counter is an integer, so that a decrement below zero would not read as zero.
\<close>

definition BroadcastCallback_new :: "nat \<Rightarrow> MpiTreeClient \<Rightarrow> MpiTreeClient" where
  "BroadcastCallback_new cb c =
     c\<lparr>broadcasts := broadcasts c @ [\<lparr>counter = 0, result = True, on_done = cb\<rparr>]\<rparr>"

definition BroadcastCallback_wrap :: "nat \<Rightarrow> MpiTreeClient \<Rightarrow> MpiTreeClient" where
  "BroadcastCallback_wrap b c =
     (if b < length (broadcasts c)
      then let a = broadcasts c ! b
           in c\<lparr>broadcasts := (broadcasts c)[b := a\<lparr>counter := counter a + 1\<rparr>]\<rparr>
      else c)"

definition BroadcastCallback_call ::
    "nat \<Rightarrow> bool \<Rightarrow> c_int \<Rightarrow> c_int \<Rightarrow> MpiTreeClient \<Rightarrow> MpiTreeClient" where
  "BroadcastCallback_call b ok0 size0 sender0 c =
     (if b < length (broadcasts c)
      then let a = broadcasts c ! b;
               a' = a\<lparr>counter := counter a - 1, result := (result a \<and> ok0)\<rparr>;
               c' = c\<lparr>broadcasts := (broadcasts c)[b := a']\<rparr>
           in if counter a' = 0 then log [Broadcast_done b (on_done a') (result a')] c' else c'
      else c)"

definition BroadcastCallback_issued :: "nat \<Rightarrow> RemoteId list \<Rightarrow> MpiTreeClient \<Rightarrow> MpiTreeClient" where
  "BroadcastCallback_issued b children_ids c =
     (if children_ids = [] \<and> b < length (broadcasts c)
      then log [Broadcast_done b (on_done (broadcasts c ! b)) True] c
      else c)"

subsection \<open>The public methods\<close>

definition resize :: "byte list \<Rightarrow> nat \<Rightarrow> byte list" where
  "resize v n = take n v @ replicate (n - length v) 0"

definition set_buffer_size :: "size_t \<Rightarrow> MpiTreeClient \<Rightarrow> MpiTreeClient" where
  "set_buffer_size max_packet_size c =
     set_recv (c\<lparr>buffer := resize (buffer c) (unat max_packet_size)\<rparr>)"

text \<open>
  The sends pass the caller's bytes, the \<^verbatim>\<open>size_t\<close> size and the \<^verbatim>\<open>RemoteId\<close>
  destination to \<^verbatim>\<open>MPI_Isend\<close>, whose parameters are \<^verbatim>\<open>int\<close>s (\<^const>\<open>ucast\<close>).
\<close>

definition async_send_to_parent ::
    "byte list \<Rightarrow> size_t \<Rightarrow> nat \<Rightarrow> MpiTreeClient \<Rightarrow> MpiTreeClient" where
  "async_send_to_parent buf size0 callback0 c =
     (let parent_id = parent (id' c);
          request = new_request c (bind_callback callback0)
      in c\<lparr>mpi_posted := mpi_posted c @ [MPI_Isend buf (ucast size0) (ucast parent_id) MSG_TAG],
           requests := requests c @ [request]\<rparr>)"

text \<open>The body of the loop of \<^verbatim>\<open>async_send_to_children\<close>, for one child.\<close>

definition send_to_child ::
    "nat \<Rightarrow> byte list \<Rightarrow> size_t \<Rightarrow> MpiTreeClient \<Rightarrow> RemoteId \<Rightarrow> MpiTreeClient" where
  "send_to_child b buff size0 c child =
     (let c1 = BroadcastCallback_wrap b c;
          request = new_request c1 (broadcast_callback b)
      in c1\<lparr>mpi_posted := mpi_posted c1 @ [MPI_Isend buff (ucast size0) (ucast child) MSG_TAG],
            requests := requests c1 @ [request]\<rparr>)"

definition async_send_to_children ::
    "byte list \<Rightarrow> size_t \<Rightarrow> nat \<Rightarrow> MpiTreeClient \<Rightarrow> MpiTreeClient" where
  "async_send_to_children buff size0 callback0 c =
     (let children_ids = children (id' c) (mpi_comm_size c);
          b = length (broadcasts c);
          c1 = BroadcastCallback_new callback0 c;
          c2 = foldl (send_to_child b buff size0) c1 children_ids
      in BroadcastCallback_issued b children_ids c2)"

definition register_receive_handler :: "nat \<Rightarrow> MpiTreeClient \<Rightarrow> MpiTreeClient" where
  "register_receive_handler handler c = c\<lparr>handlers := handlers c @ [handler]\<rparr>"

subsection \<open>\<^verbatim>\<open>poll_one\<close>\<close>

text \<open>The first block: the staged requests move to the end of the working set.\<close>

definition take_requests :: "MpiTreeClient \<Rightarrow> MpiTreeClient" where
  "take_requests c =
     (if requests c \<noteq> []
      then c\<lparr>requests_to_process := requests_to_process c @ requests c, requests := []\<rparr>
      else c)"

text \<open>
  \<^verbatim>\<open>std::stable_partition\<close> with \<^verbatim>\<open>is_ready\<close>: every request of the working set is
  tested once, the ready ones come first, and both groups keep their order. The result is
  the state and the position \<open>middle\<close>.
\<close>

definition stable_partition :: "transport \<Rightarrow> MpiTreeClient \<Rightarrow> MpiTreeClient \<times> nat" where
  "stable_partition MPI_Test c =
     (let tested = map (is_ready MPI_Test) (requests_to_process c);
          ready = map (\<lambda>t. fst (snd t)) (filter fst tested);
          rest = map (\<lambda>t. fst (snd t)) (filter (\<lambda>t. \<not> fst t) tested)
      in (log (concat (map (\<lambda>t. snd (snd t)) tested)) (c\<lparr>requests_to_process := ready @ rest\<rparr>),
          length ready))"

text \<open>The call of a stored function object with the three arguments.\<close>

fun call :: "RequestCallback \<Rightarrow> bool \<Rightarrow> c_int \<Rightarrow> c_int \<Rightarrow> MpiTreeClient \<Rightarrow> MpiTreeClient" where
  "call bind_received ok0 size0 sender0 c = received ok0 size0 sender0 c"
| "call (bind_callback cb) ok0 size0 sender0 c = log [Sent cb ok0] c"
| "call (broadcast_callback b) ok0 size0 sender0 c = BroadcastCallback_call b ok0 size0 sender0 c"

text \<open>The loop over \<open>[begin, middle)\<close>: one step, and the loop over the first \<open>middle\<close>
  requests of the working set.\<close>

definition callback_step :: "MpiTreeClient \<Rightarrow> MpiRequest \<Rightarrow> MpiTreeClient" where
  "callback_step c it =
     call (callback it) (ok it) (size' it) (sender it)
       (log [Invoke (callback it) (ok it) (size' it) (sender it)] c)"

definition run_callbacks :: "nat \<Rightarrow> MpiTreeClient \<Rightarrow> MpiTreeClient" where
  "run_callbacks middle c = foldl callback_step c (take middle (requests_to_process c))"

definition erase :: "nat \<Rightarrow> MpiTreeClient \<Rightarrow> MpiTreeClient" where
  "erase middle c = c\<lparr>requests_to_process := drop middle (requests_to_process c)\<rparr>"

definition warn :: "MpiTreeClient \<Rightarrow> MpiTreeClient" where
  "warn c =
     (if length (requests_to_process c) > 100
      then log [LOG_WARNING ''a lot of requests to process in tree cluster: ''
                  (length (requests_to_process c))] c
      else c)"

text \<open>One tick, after the check of the thread.\<close>

definition poll_tick :: "transport \<Rightarrow> MpiTreeClient \<Rightarrow> MpiTreeClient" where
  "poll_tick MPI_Test c =
     (let (c1, middle) = stable_partition MPI_Test (take_requests c)
      in post (warn (erase middle (run_callbacks middle c1))))"

datatype error = Assertion_failed

text \<open>
  \<^verbatim>\<open>poll_one\<close>: the first caller's thread becomes the main thread, and the assertion
  fails for a caller on another thread.
\<close>

definition poll_one :: "nat \<Rightarrow> transport \<Rightarrow> MpiTreeClient \<Rightarrow> error + MpiTreeClient" where
  "poll_one this_thread MPI_Test c =
     (let c1 = (if main_thread_id c = None then c\<lparr>main_thread_id := Some this_thread\<rparr> else c)
      in if main_thread_id c1 \<noteq> Some this_thread then Inl Assertion_failed
         else Inr (poll_tick MPI_Test c1))"

subsection \<open>Sequences of calls\<close>

text \<open>
  The calls a process makes on its client after the construction, and what the poller
  is told by the transport at each tick. A sequence of calls stops at a failed assertion.
\<close>

datatype api_call =
    Poll_one nat transport
  | Set_buffer_size size_t
  | Async_send_to_parent "byte list" size_t nat
  | Async_send_to_children "byte list" size_t nat
  | Register_receive_handler nat

fun do_call :: "api_call \<Rightarrow> MpiTreeClient \<Rightarrow> error + MpiTreeClient" where
  "do_call (Poll_one this_thread MPI_Test) c = poll_one this_thread MPI_Test c"
| "do_call (Set_buffer_size n) c = Inr (set_buffer_size n c)"
| "do_call (Async_send_to_parent buf n cb) c = Inr (async_send_to_parent buf n cb c)"
| "do_call (Async_send_to_children buff n cb) c = Inr (async_send_to_children buff n cb c)"
| "do_call (Register_receive_handler h) c = Inr (register_receive_handler h c)"

fun run :: "api_call list \<Rightarrow> MpiTreeClient \<Rightarrow> error + MpiTreeClient" where
  "run [] c = Inr c"
| "run (a # as) c = (case do_call a c of Inl e \<Rightarrow> Inl e | Inr c' \<Rightarrow> run as c')"

subsection \<open>What the theorems observe\<close>

text \<open>
  The ledger is the working set followed by the staged requests: the order in which the
  next tick tests them. A request is a receive when its callback is the bound
  \<^verbatim>\<open>received\<close>.
\<close>

definition ledger :: "MpiTreeClient \<Rightarrow> MpiRequest list" where
  "ledger c = requests_to_process c @ requests c"

definition is_receive :: "MpiRequest \<Rightarrow> bool" where
  "is_receive r = (callback r = bind_received)"

definition outstanding_receives :: "MpiTreeClient \<Rightarrow> nat" where
  "outstanding_receives c = length (filter is_receive (ledger c))"

text \<open>The request as \<^verbatim>\<open>is_ready\<close> leaves it, and the requests a tick finds ready.\<close>

definition tested :: "transport \<Rightarrow> MpiRequest \<Rightarrow> MpiRequest" where
  "tested MPI_Test r = fst (snd (is_ready MPI_Test r))"

definition found_ready :: "transport \<Rightarrow> MpiTreeClient \<Rightarrow> MpiRequest list" where
  "found_ready MPI_Test c =
     map (tested MPI_Test) (filter (\<lambda>r. fst (is_ready MPI_Test r)) (ledger c))"

definition found_pending :: "transport \<Rightarrow> MpiTreeClient \<Rightarrow> MpiRequest list" where
  "found_pending MPI_Test c = filter (\<lambda>r. \<not> fst (is_ready MPI_Test r)) (ledger c)"

text \<open>The calls of callbacks by the poller, as they stand in the trace.\<close>

fun is_Invoke :: "event \<Rightarrow> bool" where
  "is_Invoke (Invoke cb ok0 size0 sender0) = True"
| "is_Invoke _ = False"

definition invocations :: "MpiTreeClient \<Rightarrow> event list" where
  "invocations c = filter is_Invoke (trace c)"

definition invocation :: "MpiRequest \<Rightarrow> event" where
  "invocation it = Invoke (callback it) (ok it) (size' it) (sender it)"

text \<open>The calls of handlers in the trace.\<close>

fun is_handler_call :: "event \<Rightarrow> bool" where
  "is_handler_call (received_from_parent h b n) = True"
| "is_handler_call (received_from_child h b n s) = True"
| "is_handler_call _ = False"

text \<open>
  For the aggregator \<open>b\<close>: the requests of the ledger that hold a copy of it, the
  outcomes of the child sends that have called it, and the calls of its \<open>on_done\<close>.
\<close>

definition pending_of :: "nat \<Rightarrow> MpiTreeClient \<Rightarrow> nat" where
  "pending_of b c = length (filter (\<lambda>r. callback r = broadcast_callback b) (ledger c))"

fun outcome :: "nat \<Rightarrow> event \<Rightarrow> bool list" where
  "outcome b (Invoke (broadcast_callback b') ok0 size0 sender0) = (if b' = b then [ok0] else [])"
| "outcome b _ = []"

definition outcomes :: "nat \<Rightarrow> MpiTreeClient \<Rightarrow> bool list" where
  "outcomes b c = concat (map (outcome b) (trace c))"

fun done_call :: "nat \<Rightarrow> event \<Rightarrow> (nat \<times> bool) list" where
  "done_call b (Broadcast_done b' cb ok0) = (if b' = b then [(cb, ok0)] else [])"
| "done_call b _ = []"

definition done_calls :: "nat \<Rightarrow> MpiTreeClient \<Rightarrow> (nat \<times> bool) list" where
  "done_calls b c = concat (map (done_call b) (trace c))"

text \<open>The lines \<^verbatim>\<open>is_ready\<close> logs while a list of requests is tested.\<close>

definition test_log :: "transport \<Rightarrow> MpiRequest list \<Rightarrow> event list" where
  "test_log T rs = concat (map (\<lambda>r. snd (snd (is_ready T r))) rs)"

text \<open>
  A receive armed after the first \<open>n\<close> operations were posted: a request with the bound
  \<^verbatim>\<open>received\<close> whose handle is an \<^verbatim>\<open>MPI_Irecv\<close> among the posted operations \<open>ps\<close>, at
  position \<open>n\<close> or later.
\<close>

fun is_Irecv :: "mpi_call \<Rightarrow> bool" where
  "is_Irecv (MPI_Irecv n) = True"
| "is_Irecv _ = False"

definition fresh_receive :: "nat \<Rightarrow> mpi_call list \<Rightarrow> MpiRequest \<Rightarrow> bool" where
  "fresh_receive n ps r =
     (is_receive r \<and> n \<le> req r \<and> req r < length ps \<and> is_Irecv (ps ! req r))"

text \<open>The calls of handlers and the warnings in the trace; the calls of
  \<^verbatim>\<open>set_buffer_size\<close> in a sequence of calls.\<close>

definition handler_calls :: "MpiTreeClient \<Rightarrow> event list" where
  "handler_calls c = filter is_handler_call (trace c)"

fun is_warning :: "event \<Rightarrow> bool" where
  "is_warning (LOG_WARNING s n) = True"
| "is_warning _ = False"

definition warnings :: "MpiTreeClient \<Rightarrow> event list" where
  "warnings c = filter is_warning (trace c)"

fun is_Set_buffer_size :: "api_call \<Rightarrow> bool" where
  "is_Set_buffer_size (Set_buffer_size n) = True"
| "is_Set_buffer_size _ = False"

text \<open>
  The calls of handlers that the dispatch rule asks for on the completion \<open>it\<close> of a
  receive: every handler in the order of registration, at its parent-message entry point
  with the buffer and the size when the sender is the parent, at its child-message entry
  point with the buffer, the size and the sender otherwise.
\<close>

definition dispatched :: "MpiTreeClient \<Rightarrow> MpiRequest \<Rightarrow> event list" where
  "dispatched c it =
     (if scast (sender it) = parent (id' c)
      then map (\<lambda>h. received_from_parent h (buffer c) (size' it)) (handlers c)
      else map (\<lambda>h. received_from_child h (buffer c) (size' it) (sender it)) (handlers c))"

text \<open>
  The invariants of the aggregator \<open>b\<close>. A request holds a copy of it when its callback is
  one. \<open>conj_all\<close> is the logical AND of a list of outcomes. \<open>aggregated b cb n p c\<close>: the
  aggregator \<open>b\<close> was made for the callback \<open>cb\<close> and \<open>n\<close> children, \<open>p\<close> of their sends have
  not completed yet, the accumulator is the AND of the outcomes so far, and \<open>on_done\<close> has
  been called once, with the AND, if \<open>p = 0\<close>, and never otherwise. \<open>consistent c\<close>: no
  request and no event of the trace mentions an aggregator that does not exist yet.
\<close>

definition holds_copy :: "nat \<Rightarrow> MpiRequest \<Rightarrow> bool" where
  "holds_copy b r = (callback r = broadcast_callback b)"

definition conj_all :: "bool list \<Rightarrow> bool" where
  "conj_all oks = list_all (\<lambda>ok0. ok0) oks"

definition aggregated :: "nat \<Rightarrow> nat \<Rightarrow> nat \<Rightarrow> nat \<Rightarrow> MpiTreeClient \<Rightarrow> bool" where
  "aggregated b cb n p c =
     (b < length (broadcasts c)
      \<and> counter (broadcasts c ! b) = int p
      \<and> on_done (broadcasts c ! b) = cb
      \<and> result (broadcasts c ! b) = conj_all (outcomes b c)
      \<and> length (outcomes b c) + p = n
      \<and> done_calls b c = (if p = 0 then [(cb, conj_all (outcomes b c))] else []))"

definition consistent :: "MpiTreeClient \<Rightarrow> bool" where
  "consistent c =
     (\<forall>b. length (broadcasts c) \<le> b \<longrightarrow>
        pending_of b c = 0 \<and> outcomes b c = [] \<and> done_calls b c = [])"

section \<open>Topology\<close>

subsection \<open>Arithmetic of ranks\<close>

lemma to_double_exact: "n < 2 ^ 53 \<Longrightarrow> to_double n = n"
  unfolding to_double_def by (rule if_P)

lemma unat_half_pred: "unat ((r - 1) div 2 :: RemoteId) = unat (r - 1) div 2"
  by (simp add: unat_div)

lemma parent_exact:
  assumes "unat r < 2 ^ 53"
  shows "parent r = (if r = 0 then 0 else (r - 1) div 2)"
proof (cases "r = 0")
  case True
  then show ?thesis by (simp add: parent_def)
next
  case False
  have "unat (r - 1) \<le> unat r"
    using False by (simp add: unat_minus_one)
  then have "unat ((r - 1) div 2) < 2 ^ 53"
    using assms by (simp add: unat_half_pred)
  then show ?thesis
    using False by (simp add: parent_def to_double_exact)
qed

lemma parent_unat:
  assumes "unat c < 2 ^ 53"
  shows "unat (parent c) = (unat c - 1) div 2"
proof (cases "c = 0")
  case True
  then show ?thesis by (simp add: parent_def)
next
  case False
  have "unat (parent c) = unat ((c - 1) div 2)"
    using False by (simp only: parent_exact [OF assms] if_False)
  also have "\<dots> = unat (c - 1) div 2"
    by (rule unat_half_pred)
  also have "\<dots> = (unat c - 1) div 2"
    by (simp only: unat_minus_one [OF False])
  finally show ?thesis .
qed

lemma unat_left: "unat r < 2 ^ 31 \<Longrightarrow> unat (r * 2 + 1 :: RemoteId) = 2 * unat r + 1"
  by (simp add: unat_word_ariths)

lemma unat_right: "unat r < 2 ^ 31 \<Longrightarrow> unat (r * 2 + 2 :: RemoteId) = 2 * unat r + 2"
  by (simp add: unat_word_ariths)

lemma uint_left: "unat r < 2 ^ 31 \<Longrightarrow> uint (r * 2 + 1 :: RemoteId) = 2 * uint r + 1"
  by (simp only: uint_nat unat_left)

lemma uint_right: "unat r < 2 ^ 31 \<Longrightarrow> uint (r * 2 + 2 :: RemoteId) = 2 * uint r + 2"
  by (simp only: uint_nat unat_right)

lemma child_left:
  assumes "unat r < 2 ^ 31"
  shows "parent (r * 2 + 1) = r"
proof -
  have u: "unat (r * 2 + 1) = 2 * unat r + 1"
    using assms by (rule unat_left)
  have "2 * unat r + 1 < 2 ^ 53"
    using assms by simp
  then have "unat (r * 2 + 1) < 2 ^ 53"
    by (simp only: u)
  then have "unat (parent (r * 2 + 1)) = (unat (r * 2 + 1) - 1) div 2"
    by (rule parent_unat)
  also have "\<dots> = unat r"
    unfolding u by simp
  finally show ?thesis
    by (simp only: word_unat_eq_iff)
qed

lemma child_right:
  assumes "unat r < 2 ^ 31"
  shows "parent (r * 2 + 2) = r"
proof -
  have u: "unat (r * 2 + 2) = 2 * unat r + 2"
    using assms by (rule unat_right)
  have "2 * unat r + 2 < 2 ^ 53"
    using assms by simp
  then have "unat (r * 2 + 2) < 2 ^ 53"
    by (simp only: u)
  then have "unat (parent (r * 2 + 2)) = (unat (r * 2 + 2) - 1) div 2"
    by (rule parent_unat)
  also have "\<dots> = unat r"
    unfolding u by simp
  finally show ?thesis
    by (simp only: word_unat_eq_iff)
qed

text \<open>The conversion of a non-negative \<^verbatim>\<open>int\<close> to the unsigned type keeps its value.\<close>

lemma scast_nonneg:
  assumes "0 \<le> sint (c :: c_int)"
  shows "uint (scast c :: RemoteId) = sint c"
proof -
  have "sint c < 2 ^ 31"
    using sint_lt [of c] by simp
  then have "sint c < 2 ^ 64"
    by simp
  then have t: "take_bit 64 (sint c) = sint c"
    using assms by (simp only: take_bit_int_eq_self)
  have "uint (scast c :: RemoteId) = uint (word_of_int (sint c) :: RemoteId)"
    by (simp only: scast_eq)
  also have "\<dots> = take_bit 64 (sint c)"
    by (simp only: uint_word_of_int_eq) simp
  finally show ?thesis
    by (simp only: t)
qed

lemma less_scast:
  assumes "\<not> (count :: c_int) <s 2"
  shows "(c < scast count) = (uint (c :: RemoteId) < sint count)"
proof -
  have "0 \<le> sint count"
    using assms by (simp add: word_sless_alt)
  then have "uint (scast count :: RemoteId) = sint count"
    by (rule scast_nonneg)
  then show ?thesis
    by (simp only: word_less_def)
qed

lemma floor_half: "\<lfloor>(real_of_int k - 1) / 2\<rfloor> = (k - 1) div 2"
proof -
  have "(real_of_int k - 1) / 2 = real_of_int (k - 1) / real_of_int 2"
    by simp
  then show ?thesis
    by (simp only: floor_divide_of_int_eq)
qed

subsection \<open>The parent of a rank\<close>

text \<open>
  The bound on the rank matters to the embedding only: a 64-bit value beyond \<open>2 ^ 53\<close>
  would be rounded by the conversion to \<^verbatim>\<open>double\<close>. No rank is that large, since the
  number of processes is an \<^verbatim>\<open>int\<close>.
\<close>

lemma parent_rounds: "parent (2 ^ 54 + 3) = 2 ^ 53"
proof -
  have w: "bit_width 9007199254740993 = 54"
    by (simp add: bit_width.simps)
  have "to_double (2 ^ 53 + 1) = 2 ^ 53"
    by (simp add: to_double_def w Let_def)
  moreover have "unat ((2 ^ 54 + 3 - 1) div 2 :: RemoteId) = 2 ^ 53 + 1"
    by simp
  ultimately show ?thesis
    by (simp add: parent_def)
qed

text \<open>
  Claim C5. \<open>parent\<close> is a total function of the rank (a function of HOL, with no error
  value), and for every rank \<open>r\<close> that MPI can hand out its value is \<open>0\<close> when \<open>r = 0\<close>
  and \<open>floor ((r - 1) / 2)\<close> otherwise, the floor being the one of the real numbers.
\<close>

theorem parent_spec:
  assumes "mpi_rank r"
  shows "uint (parent r) = (if r = 0 then 0 else \<lfloor>(real_of_int (uint r) - 1) / 2\<rfloor>)"
proof (cases "r = 0")
  case True
  then show ?thesis by (simp add: parent_def)
next
  case False
  then have pos: "0 < unat r"
    by (simp add: unat_gt_0)
  have "unat r < 2 ^ 31"
    using assms by (simp only: mpi_rank_def)
  then have "unat r < 2 ^ 53"
    by simp
  then have "unat (parent r) = (unat r - 1) div 2"
    by (rule parent_unat)
  then have "int (unat (parent r)) = int ((unat r - 1) div 2)"
    by (rule arg_cong)
  also have "\<dots> = (int (unat r) - 1) div 2"
    using pos by (simp add: zdiv_int)
  finally have "uint (parent r) = (uint r - 1) div 2"
    by (simp only: uint_nat)
  then show ?thesis
    using False by (simp only: floor_half if_False)
qed

theorem parent_spec_witness:
  "mpi_rank 6 \<and> uint (parent 6) = 2 \<and> uint (parent 5) = 2 \<and> uint (parent 0) = 0"
proof -
  have m: "mpi_rank 6" "mpi_rank 5" "mpi_rank 0"
    by (simp_all add: mpi_rank_def)
  show ?thesis
    using m parent_spec [of 6] parent_spec [of 5] parent_spec [of 0] by simp
qed

subsection \<open>The children of a rank\<close>

text \<open>
  Claim C6. For every rank \<open>r\<close> that MPI can hand out and every node count,
  \<open>children r count\<close> is the sequence of those of \<open>2r+1\<close>, \<open>2r+2\<close> (in this order) that are
  below the count. For every \<open>r\<close> and count at all, it has at most two entries, it is empty
  when the count is below 2, and every entry is below the count.
\<close>

theorem children_spec:
  "(mpi_rank r \<longrightarrow>
      map uint (children r count) = filter (\<lambda>c. c < sint count) [2 * uint r + 1, 2 * uint r + 2])
   \<and> length (children r count) \<le> 2
   \<and> (sint count < 2 \<longrightarrow> children r count = [])
   \<and> (\<forall>c \<in> set (children r count). uint c < sint count)"
proof (intro conjI impI ballI)
  assume "mpi_rank r"
  then have b: "unat r < 2 ^ 31" by (simp only: mpi_rank_def)
  note l = uint_left [OF b] and rr = uint_right [OF b]
  have nn: "0 \<le> uint r" by (rule uint_ge_0)
  show "map uint (children r count) = filter (\<lambda>c. c < sint count) [2 * uint r + 1, 2 * uint r + 2]"
  proof (cases "count <s 2")
    case True
    then have "sint count < 2" by (simp add: word_sless_alt)
    then have "\<not> 2 * uint r + 1 < sint count" "\<not> 2 * uint r + 2 < sint count"
      using nn by linarith+
    then show ?thesis using True by (simp add: children_def)
  next
    case False
    show ?thesis
      unfolding children_def less_scast [OF False] using False by (simp add: l rr)
  qed
next
  show "length (children r count) \<le> 2"
    by (simp add: children_def)
next
  assume "sint count < 2"
  then show "children r count = []"
    by (simp add: children_def word_sless_alt)
next
  fix c assume c: "c \<in> set (children r count)"
  show "uint c < sint count"
  proof (cases "count <s 2")
    case True
    then show ?thesis using c by (simp add: children_def)
  next
    case False
    from c show ?thesis
      unfolding children_def less_scast [OF False] using False
      by (auto split: if_splits)
  qed
qed

theorem children_spec_witness:
  "mpi_rank 1 \<and> map uint (children 1 4) = [3] \<and> length (children 1 4) \<le> 2
   \<and> sint (1 :: c_int) < 2 \<and> children 0 1 = [] \<and> set (children 1 4) = {3}"
proof -
  have m: "mpi_rank 1" by (simp add: mpi_rank_def)
  have c: "children 1 4 = [3]" by (simp add: children_def word_sless_alt)
  show ?thesis
    using m c children_spec [of 1 4] children_spec [of 0 1] by simp
qed

subsection \<open>Parent and children are inverse along the edges\<close>

text \<open>
  Claim C3. For every node count of at least 1, every rank below the count and every
  valid index \<open>i\<close> into the children of the rank, the parent of the \<open>i\<close>-th child is the
  rank.
\<close>

theorem parent_of_child:
  assumes "1 \<le> sint count" and "uint rank < sint count" and "i < length (children rank count)"
  shows "parent (children rank count ! i) = rank"
proof -
  have "sint count < 2 ^ 31"
    using sint_lt [of count] by simp
  then have "uint rank < 2 ^ 31"
    using assms(2) by simp
  then have "int (unat rank) < int (2 ^ 31)"
    by (simp only: uint_nat) simp
  then have b: "unat rank < 2 ^ 31"
    by (simp only: of_nat_less_iff)
  have "children rank count ! i = rank * 2 + 1 \<or> children rank count ! i = rank * 2 + 2"
    using assms(3) by (cases i) (auto simp: children_def split: if_splits)
  then show ?thesis
    using child_left [OF b] child_right [OF b] by auto
qed

theorem parent_of_child_witness:
  "1 \<le> sint (5 :: c_int) \<and> uint (1 :: RemoteId) < sint (5 :: c_int)
   \<and> (1 :: nat) < length (children 1 5) \<and> parent (children 1 5 ! 1) = 1"
proof -
  have c: "children 1 5 = [3, 4]" by (simp add: children_def word_sless_alt)
  have h: "1 \<le> sint (5 :: c_int)" "uint (1 :: RemoteId) < sint (5 :: c_int)"
    "(1 :: nat) < length (children 1 5)"
    by (simp_all add: c)
  show ?thesis
    using h parent_of_child [OF h] by simp
qed

section \<open>The poller\<close>

subsection \<open>What each step changes\<close>

lemma map_index: "map (\<lambda>i. f (xs ! i)) [0 ..< length xs] = map f xs"
proof -
  have "map (\<lambda>i. f (xs ! i)) [0 ..< length xs] = map f (map ((!) xs) [0 ..< length xs])"
    by simp
  then show ?thesis
    by (simp only: map_nth)
qed

lemma log_fields [simp]:
  "handlers (log es c) = handlers c"
  "requests (log es c) = requests c"
  "requests_to_process (log es c) = requests_to_process c"
  "buffer (log es c) = buffer c"
  "main_thread_id (log es c) = main_thread_id c"
  "mpi_current_proc_rank (log es c) = mpi_current_proc_rank c"
  "mpi_comm_size (log es c) = mpi_comm_size c"
  "mpi_posted (log es c) = mpi_posted c"
  "broadcasts (log es c) = broadcasts c"
  "io_service_posted (log es c) = io_service_posted c"
  "trace (log es c) = trace c @ es"
  by (simp_all add: log_def)

lemma post_fields [simp]:
  "handlers (post c) = handlers c"
  "requests (post c) = requests c"
  "requests_to_process (post c) = requests_to_process c"
  "buffer (post c) = buffer c"
  "main_thread_id (post c) = main_thread_id c"
  "mpi_current_proc_rank (post c) = mpi_current_proc_rank c"
  "mpi_comm_size (post c) = mpi_comm_size c"
  "mpi_posted (post c) = mpi_posted c"
  "broadcasts (post c) = broadcasts c"
  "io_service_posted (post c) = io_service_posted c + 1"
  "trace (post c) = trace c"
  by (simp_all add: post_def)

lemma id_log [simp]: "id' (log es c) = id' c"
  by (simp add: id'_def)

lemma new_request_log [simp]: "new_request (log es c) cb = new_request c cb"
  by (simp add: new_request_def)

lemma set_recv_fields [simp]:
  "handlers (set_recv c) = handlers c"
  "requests (set_recv c) = requests c @ [new_request c bind_received]"
  "requests_to_process (set_recv c) = requests_to_process c"
  "buffer (set_recv c) = buffer c"
  "main_thread_id (set_recv c) = main_thread_id c"
  "mpi_current_proc_rank (set_recv c) = mpi_current_proc_rank c"
  "mpi_comm_size (set_recv c) = mpi_comm_size c"
  "mpi_posted (set_recv c) = mpi_posted c @ [MPI_Irecv (of_nat (length (buffer c)))]"
  "broadcasts (set_recv c) = broadcasts c"
  "io_service_posted (set_recv c) = io_service_posted c"
  "trace (set_recv c) = trace c"
  by (simp_all add: set_recv_def Let_def)

lemma received_fields [simp]:
  "handlers (received ok0 size0 sender0 c) = handlers c"
  "requests (received ok0 size0 sender0 c) = requests c @ [new_request c bind_received]"
  "requests_to_process (received ok0 size0 sender0 c) = requests_to_process c"
  "buffer (received ok0 size0 sender0 c) = buffer c"
  "main_thread_id (received ok0 size0 sender0 c) = main_thread_id c"
  "mpi_current_proc_rank (received ok0 size0 sender0 c) = mpi_current_proc_rank c"
  "mpi_comm_size (received ok0 size0 sender0 c) = mpi_comm_size c"
  "mpi_posted (received ok0 size0 sender0 c) = mpi_posted c @ [MPI_Irecv (of_nat (length (buffer c)))]"
  "broadcasts (received ok0 size0 sender0 c) = broadcasts c"
  "io_service_posted (received ok0 size0 sender0 c) = io_service_posted c"
  by (simp_all add: received_def Let_def)

lemma received_trace:
  "trace (received ok0 size0 sender0 c) = trace c @
     (if ok0 then
        (if scast sender0 = parent (id' c)
         then map (\<lambda>h. received_from_parent h (buffer c) size0) (handlers c)
         else map (\<lambda>h. received_from_child h (buffer c) size0 sender0) (handlers c))
      else [LOG_ERROR ''RECEIVED FAILED''])"
  using map_index [of "\<lambda>h. received_from_parent h (buffer c) size0" "handlers c"]
    map_index [of "\<lambda>h. received_from_child h (buffer c) size0 sender0" "handlers c"]
  by (simp add: received_def Let_def)

lemma call_fields [simp]:
  "handlers (call cb ok0 size0 sender0 c) = handlers c"
  "requests_to_process (call cb ok0 size0 sender0 c) = requests_to_process c"
  "buffer (call cb ok0 size0 sender0 c) = buffer c"
  "main_thread_id (call cb ok0 size0 sender0 c) = main_thread_id c"
  "mpi_current_proc_rank (call cb ok0 size0 sender0 c) = mpi_current_proc_rank c"
  "mpi_comm_size (call cb ok0 size0 sender0 c) = mpi_comm_size c"
  "io_service_posted (call cb ok0 size0 sender0 c) = io_service_posted c"
  by (cases cb; simp add: BroadcastCallback_call_def Let_def)+

lemma call_requests:
  "requests (call cb ok0 size0 sender0 c) =
     requests c @ (if cb = bind_received then [new_request c bind_received] else [])"
  by (cases cb) (simp_all add: BroadcastCallback_call_def Let_def)

lemma call_posted:
  "mpi_posted (call cb ok0 size0 sender0 c) =
     mpi_posted c @ (if cb = bind_received then [MPI_Irecv (of_nat (length (buffer c)))] else [])"
  by (cases cb) (simp_all add: BroadcastCallback_call_def Let_def)

lemma callback_step_fields [simp]:
  "handlers (callback_step c it) = handlers c"
  "requests_to_process (callback_step c it) = requests_to_process c"
  "buffer (callback_step c it) = buffer c"
  "main_thread_id (callback_step c it) = main_thread_id c"
  "mpi_current_proc_rank (callback_step c it) = mpi_current_proc_rank c"
  "mpi_comm_size (callback_step c it) = mpi_comm_size c"
  "io_service_posted (callback_step c it) = io_service_posted c"
  by (simp_all add: callback_step_def)

lemma callback_step_requests:
  "requests (callback_step c it) =
     requests c @ (if is_receive it then [new_request c bind_received] else [])"
  by (simp add: callback_step_def call_requests is_receive_def)

lemma callback_step_posted:
  "mpi_posted (callback_step c it) =
     mpi_posted c @ (if is_receive it then [MPI_Irecv (of_nat (length (buffer c)))] else [])"
  by (simp add: callback_step_def call_posted is_receive_def)

lemma call_no_Invoke:
  "filter is_Invoke (trace (call cb ok0 size0 sender0 c)) = filter is_Invoke (trace c)"
  by (cases cb) (simp_all add: received_trace BroadcastCallback_call_def Let_def)

lemma callback_step_invocations:
  "invocations (callback_step c it) = invocations c @ [invocation it]"
  by (simp add: invocations_def callback_step_def call_no_Invoke invocation_def)

subsection \<open>The steps of a tick\<close>

lemma take_requests_fields [simp]:
  "handlers (take_requests c) = handlers c"
  "requests (take_requests c) = []"
  "requests_to_process (take_requests c) = ledger c"
  "buffer (take_requests c) = buffer c"
  "main_thread_id (take_requests c) = main_thread_id c"
  "mpi_current_proc_rank (take_requests c) = mpi_current_proc_rank c"
  "mpi_comm_size (take_requests c) = mpi_comm_size c"
  "mpi_posted (take_requests c) = mpi_posted c"
  "broadcasts (take_requests c) = broadcasts c"
  "io_service_posted (take_requests c) = io_service_posted c"
  "trace (take_requests c) = trace c"
  by (simp_all add: take_requests_def ledger_def)

lemma is_ready_Pending: "\<not> fst (is_ready T r) \<Longrightarrow> tested T r = r"
  by (simp add: is_ready_def tested_def Let_def split: mpi_test.splits)

text \<open>
  The \<open>ok\<close> of a tested request is the result of \<^verbatim>\<open>MPI_Get_count\<close>: the assignment from
  the result of \<^verbatim>\<open>MPI_Test\<close> is overwritten.
\<close>

lemma tested_ok:
  "T (req r) = Complete test_ok source count_ok n \<Longrightarrow> ok (tested T r) = count_ok"
  by (simp add: is_ready_def tested_def Let_def)

lemma tested_callback [simp]: "callback (tested T r) = callback r"
  by (simp add: is_ready_def tested_def Let_def split: mpi_test.splits)

lemma tested_req [simp]: "req (tested T r) = req r"
  by (simp add: is_ready_def tested_def Let_def split: mpi_test.splits)

lemma is_receive_tested [simp]: "is_receive (tested T r) = is_receive r"
  by (simp add: is_receive_def)

lemma ready_part:
  "map (\<lambda>t. fst (snd t)) (filter fst (map (is_ready T) rs)) =
     map (tested T) (filter (\<lambda>r. fst (is_ready T r)) rs)"
  by (induction rs) (simp_all add: tested_def)

lemma rest_part:
  "map (\<lambda>t. fst (snd t)) (filter (\<lambda>t. \<not> fst t) (map (is_ready T) rs)) =
     filter (\<lambda>r. \<not> fst (is_ready T r)) rs"
  by (induction rs) (simp_all add: is_ready_Pending [unfolded tested_def])

lemma stable_partition_snd:
  "snd (stable_partition T c) =
     length (filter (\<lambda>r. fst (is_ready T r)) (requests_to_process c))"
  by (simp add: stable_partition_def Let_def comp_def)

lemma stable_partition_fields [simp]:
  "handlers (fst (stable_partition T c)) = handlers c"
  "requests (fst (stable_partition T c)) = requests c"
  "buffer (fst (stable_partition T c)) = buffer c"
  "main_thread_id (fst (stable_partition T c)) = main_thread_id c"
  "mpi_current_proc_rank (fst (stable_partition T c)) = mpi_current_proc_rank c"
  "mpi_comm_size (fst (stable_partition T c)) = mpi_comm_size c"
  "mpi_posted (fst (stable_partition T c)) = mpi_posted c"
  "broadcasts (fst (stable_partition T c)) = broadcasts c"
  "io_service_posted (fst (stable_partition T c)) = io_service_posted c"
  by (simp_all add: stable_partition_def Let_def)

lemma stable_partition_working_set:
  "requests_to_process (fst (stable_partition T c)) =
     map (tested T) (filter (\<lambda>r. fst (is_ready T r)) (requests_to_process c)) @
     filter (\<lambda>r. \<not> fst (is_ready T r)) (requests_to_process c)"
  by (simp add: stable_partition_def Let_def ready_part rest_part)

lemma stable_partition_trace:
  "trace (fst (stable_partition T c)) = trace c @ test_log T (requests_to_process c)"
  by (simp add: stable_partition_def Let_def test_log_def comp_def)

lemma is_ready_log_no_Invoke: "filter is_Invoke (snd (snd (is_ready T r))) = []"
  by (simp add: is_ready_def Let_def split: mpi_test.splits)

lemma test_log_no_Invoke [simp]: "filter is_Invoke (test_log T rs) = []"
  by (induction rs) (simp_all add: test_log_def is_ready_log_no_Invoke)

lemma erase_fields [simp]:
  "handlers (erase m c) = handlers c"
  "requests (erase m c) = requests c"
  "requests_to_process (erase m c) = drop m (requests_to_process c)"
  "buffer (erase m c) = buffer c"
  "main_thread_id (erase m c) = main_thread_id c"
  "mpi_current_proc_rank (erase m c) = mpi_current_proc_rank c"
  "mpi_comm_size (erase m c) = mpi_comm_size c"
  "mpi_posted (erase m c) = mpi_posted c"
  "broadcasts (erase m c) = broadcasts c"
  "io_service_posted (erase m c) = io_service_posted c"
  "trace (erase m c) = trace c"
  by (simp_all add: erase_def)

lemma warn_fields [simp]:
  "handlers (warn c) = handlers c"
  "requests (warn c) = requests c"
  "requests_to_process (warn c) = requests_to_process c"
  "buffer (warn c) = buffer c"
  "main_thread_id (warn c) = main_thread_id c"
  "mpi_current_proc_rank (warn c) = mpi_current_proc_rank c"
  "mpi_comm_size (warn c) = mpi_comm_size c"
  "mpi_posted (warn c) = mpi_posted c"
  "broadcasts (warn c) = broadcasts c"
  "io_service_posted (warn c) = io_service_posted c"
  by (simp_all add: warn_def)

lemma warn_trace:
  "trace (warn c) = trace c @
     (if 100 < length (requests_to_process c)
      then [LOG_WARNING ''a lot of requests to process in tree cluster: ''
              (length (requests_to_process c))]
      else [])"
  by (simp add: warn_def)

lemma warn_invocations [simp]: "invocations (warn c) = invocations c"
  by (simp add: invocations_def warn_trace)

lemma post_invocations [simp]: "invocations (post c) = invocations c"
  by (simp add: invocations_def)

lemma erase_invocations [simp]: "invocations (erase m c) = invocations c"
  by (simp add: invocations_def)

subsection \<open>The loop over the ready requests\<close>

lemma loop_fields [simp]:
  "handlers (foldl callback_step c rs) = handlers c"
  "requests_to_process (foldl callback_step c rs) = requests_to_process c"
  "buffer (foldl callback_step c rs) = buffer c"
  "main_thread_id (foldl callback_step c rs) = main_thread_id c"
  "mpi_current_proc_rank (foldl callback_step c rs) = mpi_current_proc_rank c"
  "mpi_comm_size (foldl callback_step c rs) = mpi_comm_size c"
  "io_service_posted (foldl callback_step c rs) = io_service_posted c"
  by (induction rs arbitrary: c; simp)+

lemma loop_invocations:
  "invocations (foldl callback_step c rs) = invocations c @ map invocation rs"
  by (induction rs arbitrary: c) (simp_all add: callback_step_invocations)

lemma run_callbacks_ready:
  assumes "requests_to_process c = ready @ rest" and "m = length ready"
  shows "run_callbacks m c = foldl callback_step c ready"
  using assms by (simp add: run_callbacks_def)

lemma fresh_receive_append: "fresh_receive n ps r \<Longrightarrow> fresh_receive n (ps @ qs) r"
  by (simp add: fresh_receive_def nth_append)

lemma fresh_receive_new:
  "n \<le> length (mpi_posted c) \<Longrightarrow>
     fresh_receive n (mpi_posted c @ [MPI_Irecv k]) (new_request c bind_received)"
  by (simp add: fresh_receive_def new_request_def is_receive_def)

lemma step_fresh:
  assumes "list_all (fresh_receive n (mpi_posted c)) (requests c)" and "n \<le> length (mpi_posted c)"
  shows "list_all (fresh_receive n (mpi_posted (callback_step c it))) (requests (callback_step c it))
     \<and> n \<le> length (mpi_posted (callback_step c it))"
  using assms
  by (auto simp: callback_step_requests callback_step_posted list_all_iff
      intro: fresh_receive_append fresh_receive_new)

lemma loop_fresh:
  assumes "list_all (fresh_receive n (mpi_posted c)) (requests c)" and "n \<le> length (mpi_posted c)"
  shows "list_all (fresh_receive n (mpi_posted (foldl callback_step c rs)))
           (requests (foldl callback_step c rs))"
  using assms
proof (induction rs arbitrary: c)
  case Nil
  then show ?case by simp
next
  case (Cons it rs)
  from step_fresh [OF Cons.prems] show ?case
    by (simp add: Cons.IH)
qed

lemma loop_requests_length:
  "length (requests (foldl callback_step c rs)) =
     length (requests c) + length (filter is_receive rs)"
  by (induction rs arbitrary: c) (simp_all add: callback_step_requests)

subsection \<open>A whole tick\<close>

lemma partitioned:
  "requests_to_process (fst (stable_partition T (take_requests c))) =
     found_ready T c @ found_pending T c"
  by (simp add: stable_partition_working_set found_ready_def found_pending_def)

lemma middle: "snd (stable_partition T (take_requests c)) = length (found_ready T c)"
  by (simp add: stable_partition_snd found_ready_def)

lemma poll_tick_unfold:
  "poll_tick T c =
     post (warn (erase (length (found_ready T c))
       (foldl callback_step (fst (stable_partition T (take_requests c))) (found_ready T c))))"
proof -
  obtain c1 m where p: "stable_partition T (take_requests c) = (c1, m)"
    by (cases "stable_partition T (take_requests c)")
  have m: "m = length (found_ready T c)"
    using middle [of T c] by (simp add: p)
  have "requests_to_process c1 = found_ready T c @ found_pending T c"
    using partitioned [of T c] by (simp add: p)
  then have "run_callbacks m c1 = foldl callback_step c1 (found_ready T c)"
    using m by (rule run_callbacks_ready)
  then show ?thesis
    by (simp add: poll_tick_def p m)
qed

lemma poll_tick_working_set: "requests_to_process (poll_tick T c) = found_pending T c"
  by (simp add: poll_tick_unfold partitioned)

lemma poll_tick_invocations:
  "invocations (poll_tick T c) = invocations c @ map invocation (found_ready T c)"
proof -
  have "invocations (fst (stable_partition T (take_requests c))) = invocations c"
    by (simp add: invocations_def stable_partition_trace)
  then show ?thesis
    by (simp add: poll_tick_unfold loop_invocations)
qed

lemma poll_tick_requests_length:
  "length (requests (poll_tick T c)) = length (filter is_receive (found_ready T c))"
  by (simp add: poll_tick_unfold loop_requests_length)

lemma poll_tick_fresh:
  "list_all (fresh_receive (length (mpi_posted c)) (mpi_posted (poll_tick T c)))
     (requests (poll_tick T c))"
proof -
  let ?c1 = "fst (stable_partition T (take_requests c))"
  have "list_all (fresh_receive (length (mpi_posted c)) (mpi_posted ?c1)) (requests ?c1)"
    by simp
  moreover have "length (mpi_posted c) \<le> length (mpi_posted ?c1)"
    by simp
  ultimately have "list_all (fresh_receive (length (mpi_posted c))
      (mpi_posted (foldl callback_step ?c1 (found_ready T c))))
      (requests (foldl callback_step ?c1 (found_ready T c)))"
    by (rule loop_fresh)
  then show ?thesis
    by (simp add: poll_tick_unfold)
qed

lemma count_split:
  "length (filter P (filter Q xs)) + length (filter P (filter (\<lambda>x. \<not> Q x) xs)) =
     length (filter P xs)"
  by (induction xs) simp_all

lemma poll_tick_outstanding:
  "outstanding_receives (poll_tick T c) = outstanding_receives c"
proof -
  have all: "filter is_receive (requests (poll_tick T c)) = requests (poll_tick T c)"
    using poll_tick_fresh [of c T] by (simp add: list_all_iff fresh_receive_def filter_id_conv)
  have "length (filter is_receive (found_ready T c)) =
      length (filter is_receive (filter (\<lambda>r. fst (is_ready T r)) (ledger c)))"
    by (simp add: found_ready_def filter_map comp_def)
  then have "outstanding_receives (poll_tick T c) =
      length (filter is_receive (filter (\<lambda>r. \<not> fst (is_ready T r)) (ledger c))) +
      length (filter is_receive (filter (\<lambda>r. fst (is_ready T r)) (ledger c)))"
    by (simp add: outstanding_receives_def ledger_def [of "poll_tick T c"] poll_tick_working_set
        all poll_tick_requests_length found_pending_def)
  then show ?thesis
    using count_split [of is_receive "\<lambda>r. fst (is_ready T r)" "ledger c"]
    by (simp add: outstanding_receives_def)
qed

subsection \<open>Warnings\<close>

lemma call_no_warning:
  "filter is_warning (trace (call cb ok0 size0 sender0 c)) = filter is_warning (trace c)"
  by (cases cb) (simp_all add: received_trace BroadcastCallback_call_def Let_def)

lemma callback_step_warnings [simp]: "warnings (callback_step c it) = warnings c"
  by (simp add: warnings_def callback_step_def call_no_warning)

lemma loop_warnings [simp]: "warnings (foldl callback_step c rs) = warnings c"
  by (induction rs arbitrary: c) simp_all

lemma is_ready_log_no_warning: "filter is_warning (snd (snd (is_ready T r))) = []"
  by (simp add: is_ready_def Let_def split: mpi_test.splits)

lemma test_log_no_warning [simp]: "filter is_warning (test_log T rs) = []"
  by (induction rs) (simp_all add: test_log_def is_ready_log_no_warning)

lemma poll_tick_warnings:
  "warnings (poll_tick T c) = warnings c @
     (if 100 < length (found_pending T c)
      then [LOG_WARNING ''a lot of requests to process in tree cluster: ''
              (length (found_pending T c))]
      else [])"
proof -
  let ?c1 = "fst (stable_partition T (take_requests c))"
  let ?c2 = "foldl callback_step ?c1 (found_ready T c)"
  have "warnings ?c1 = warnings c"
    by (simp add: warnings_def stable_partition_trace)
  then have "warnings ?c2 = warnings c"
    by simp
  then have "filter is_warning (trace (erase (length (found_ready T c)) ?c2)) = warnings c"
    by (simp add: warnings_def)
  then show ?thesis
    by (simp add: poll_tick_unfold warnings_def [of "post _"] warn_trace partitioned)
qed

subsection \<open>The check of the thread\<close>

lemma poll_one_Inr:
  assumes "main_thread_id c = None \<or> main_thread_id c = Some t"
  shows "poll_one t T c = Inr (poll_tick T (c\<lparr>main_thread_id := Some t\<rparr>))"
proof (cases "main_thread_id c")
  case None
  then show ?thesis by (simp add: poll_one_def)
next
  case (Some u)
  then have "u = t" using assms by simp
  then have e: "c\<lparr>main_thread_id := Some t\<rparr> = c"
    using Some by simp
  have "poll_one t T c = Inr (poll_tick T c)"
    using Some \<open>u = t\<close> by (simp add: poll_one_def)
  then show ?thesis
    by (simp only: e)
qed

lemma thread_irrelevant [simp]:
  "ledger (c\<lparr>main_thread_id := x\<rparr>) = ledger c"
  "found_ready T (c\<lparr>main_thread_id := x\<rparr>) = found_ready T c"
  "found_pending T (c\<lparr>main_thread_id := x\<rparr>) = found_pending T c"
  "invocations (c\<lparr>main_thread_id := x\<rparr>) = invocations c"
  "warnings (c\<lparr>main_thread_id := x\<rparr>) = warnings c"
  "outstanding_receives (c\<lparr>main_thread_id := x\<rparr>) = outstanding_receives c"
  by (simp_all add: ledger_def found_ready_def found_pending_def invocations_def warnings_def
      outstanding_receives_def)

lemma all_pending:
  assumes "\<forall>r \<in> set (ledger c). T (req r) = Pending"
  shows "found_pending T c = ledger c" and "found_ready T c = []"
  using assms by (simp_all add: found_pending_def found_ready_def is_ready_def filter_id_conv)

lemma all_complete:
  assumes "\<forall>r \<in> set (ledger c). T (req r) \<noteq> Pending"
  shows "found_pending T c = []" and "found_ready T c = map (tested T) (ledger c)"
proof -
  have "fst (is_ready T r)" if "r \<in> set (ledger c)" for r
    using assms that by (simp add: is_ready_def Let_def split: mpi_test.splits)
  then show "found_pending T c = []" and "found_ready T c = map (tested T) (ledger c)"
    by (simp_all add: found_pending_def found_ready_def filter_id_conv filter_empty_conv)
qed

lemma poll_tick_no_ready:
  assumes "found_ready T c = []"
  shows "requests (poll_tick T c) = []"
  using poll_tick_requests_length [of T c] assms by simp

section \<open>Sending to the parent at the root\<close>

text \<open>
  Claim C9. At rank 0 \<^verbatim>\<open>async_send_to_parent\<close> posts one \<^verbatim>\<open>MPI_Isend\<close> whose destination
  is rank 0 and stages one request for it.
\<close>

theorem root_sends_to_itself:
  assumes "id' c = 0"
  shows "mpi_posted (async_send_to_parent buf size0 cb c) =
           mpi_posted c @ [MPI_Isend buf (ucast size0) 0 MSG_TAG]
     \<and> requests (async_send_to_parent buf size0 cb c) =
           requests c @ [new_request c (bind_callback cb)]"
  using assms by (simp add: async_send_to_parent_def Let_def parent_def)

theorem root_sends_to_itself_witness:
  "id' (MpiTreeClient_new 0 3) = 0
   \<and> mpi_posted (async_send_to_parent [1, 2] 2 5 (MpiTreeClient_new 0 3)) =
       [MPI_Isend [1, 2] 2 0 1972]
   \<and> length (requests (async_send_to_parent [1, 2] 2 5 (MpiTreeClient_new 0 3))) = 1"
proof -
  have i: "id' (MpiTreeClient_new 0 3) = 0"
    by (simp add: id'_def MpiTreeClient_new_def post_def)
  show ?thesis
    using i root_sends_to_itself [OF i, of "[1, 2]" 2 5]
    by (simp add: MpiTreeClient_new_def post_def MSG_TAG_def)
qed

section \<open>The sends\<close>

lemma wrap_fields [simp]:
  "handlers (BroadcastCallback_wrap b c) = handlers c"
  "requests (BroadcastCallback_wrap b c) = requests c"
  "requests_to_process (BroadcastCallback_wrap b c) = requests_to_process c"
  "buffer (BroadcastCallback_wrap b c) = buffer c"
  "main_thread_id (BroadcastCallback_wrap b c) = main_thread_id c"
  "mpi_current_proc_rank (BroadcastCallback_wrap b c) = mpi_current_proc_rank c"
  "mpi_comm_size (BroadcastCallback_wrap b c) = mpi_comm_size c"
  "mpi_posted (BroadcastCallback_wrap b c) = mpi_posted c"
  "io_service_posted (BroadcastCallback_wrap b c) = io_service_posted c"
  "trace (BroadcastCallback_wrap b c) = trace c"
  "length (broadcasts (BroadcastCallback_wrap b c)) = length (broadcasts c)"
  by (simp_all add: BroadcastCallback_wrap_def Let_def)

lemma send_to_child_fields [simp]:
  "handlers (send_to_child b buff n c child) = handlers c"
  "requests (send_to_child b buff n c child) = requests c @ [new_request c (broadcast_callback b)]"
  "requests_to_process (send_to_child b buff n c child) = requests_to_process c"
  "buffer (send_to_child b buff n c child) = buffer c"
  "main_thread_id (send_to_child b buff n c child) = main_thread_id c"
  "mpi_current_proc_rank (send_to_child b buff n c child) = mpi_current_proc_rank c"
  "mpi_comm_size (send_to_child b buff n c child) = mpi_comm_size c"
  "mpi_posted (send_to_child b buff n c child) =
     mpi_posted c @ [MPI_Isend buff (ucast n) (ucast child) MSG_TAG]"
  "io_service_posted (send_to_child b buff n c child) = io_service_posted c"
  "trace (send_to_child b buff n c child) = trace c"
  "broadcasts (send_to_child b buff n c child) = broadcasts (BroadcastCallback_wrap b c)"
  by (simp_all add: send_to_child_def Let_def new_request_def)

lemma new_fields [simp]:
  "handlers (BroadcastCallback_new cb c) = handlers c"
  "requests (BroadcastCallback_new cb c) = requests c"
  "requests_to_process (BroadcastCallback_new cb c) = requests_to_process c"
  "buffer (BroadcastCallback_new cb c) = buffer c"
  "main_thread_id (BroadcastCallback_new cb c) = main_thread_id c"
  "mpi_current_proc_rank (BroadcastCallback_new cb c) = mpi_current_proc_rank c"
  "mpi_comm_size (BroadcastCallback_new cb c) = mpi_comm_size c"
  "mpi_posted (BroadcastCallback_new cb c) = mpi_posted c"
  "io_service_posted (BroadcastCallback_new cb c) = io_service_posted c"
  "trace (BroadcastCallback_new cb c) = trace c"
  "broadcasts (BroadcastCallback_new cb c) =
     broadcasts c @ [\<lparr>counter = 0, result = True, on_done = cb\<rparr>]"
  by (simp_all add: BroadcastCallback_new_def)

lemma issued_fields [simp]:
  "handlers (BroadcastCallback_issued b ids c) = handlers c"
  "requests (BroadcastCallback_issued b ids c) = requests c"
  "requests_to_process (BroadcastCallback_issued b ids c) = requests_to_process c"
  "buffer (BroadcastCallback_issued b ids c) = buffer c"
  "main_thread_id (BroadcastCallback_issued b ids c) = main_thread_id c"
  "mpi_current_proc_rank (BroadcastCallback_issued b ids c) = mpi_current_proc_rank c"
  "mpi_comm_size (BroadcastCallback_issued b ids c) = mpi_comm_size c"
  "mpi_posted (BroadcastCallback_issued b ids c) = mpi_posted c"
  "io_service_posted (BroadcastCallback_issued b ids c) = io_service_posted c"
  "broadcasts (BroadcastCallback_issued b ids c) = broadcasts c"
  by (simp_all add: BroadcastCallback_issued_def)

lemma sends_fields [simp]:
  "handlers (foldl (send_to_child b buff n) c ids) = handlers c"
  "requests_to_process (foldl (send_to_child b buff n) c ids) = requests_to_process c"
  "buffer (foldl (send_to_child b buff n) c ids) = buffer c"
  "main_thread_id (foldl (send_to_child b buff n) c ids) = main_thread_id c"
  "mpi_current_proc_rank (foldl (send_to_child b buff n) c ids) = mpi_current_proc_rank c"
  "mpi_comm_size (foldl (send_to_child b buff n) c ids) = mpi_comm_size c"
  "io_service_posted (foldl (send_to_child b buff n) c ids) = io_service_posted c"
  "trace (foldl (send_to_child b buff n) c ids) = trace c"
  "length (broadcasts (foldl (send_to_child b buff n) c ids)) = length (broadcasts c)"
  by (induction ids arbitrary: c; simp)+

lemma sends_requests:
  "\<exists>rs. requests (foldl (send_to_child b buff n) c ids) = requests c @ rs
        \<and> length rs = length ids \<and> (\<forall>r \<in> set rs. callback r = broadcast_callback b)"
proof (induction ids arbitrary: c)
  case Nil
  then show ?case by simp
next
  case (Cons i ids)
  obtain rs where rs: "requests (foldl (send_to_child b buff n) (send_to_child b buff n c i) ids) =
      requests (send_to_child b buff n c i) @ rs"
      "length rs = length ids" "\<forall>r \<in> set rs. callback r = broadcast_callback b"
    using Cons.IH [of "send_to_child b buff n c i"] by blast
  show ?case
    by (rule exI [of _ "new_request c (broadcast_callback b) # rs"])
       (simp add: rs new_request_def)
qed

lemma children_requests:
  "\<exists>rs. requests (async_send_to_children buff n cb c) = requests c @ rs
        \<and> length rs = length (children (id' c) (mpi_comm_size c))
        \<and> (\<forall>r \<in> set rs. callback r = broadcast_callback (length (broadcasts c)))"
  using sends_requests [of "length (broadcasts c)" buff n "BroadcastCallback_new cb c"
      "children (id' c) (mpi_comm_size c)"]
  by (simp add: async_send_to_children_def Let_def)

lemma children_working_set [simp]:
  "requests_to_process (async_send_to_children buff n cb c) = requests_to_process c"
  by (simp add: async_send_to_children_def Let_def)

lemma parent_working_set [simp]:
  "requests_to_process (async_send_to_parent buf n cb c) = requests_to_process c"
  by (simp add: async_send_to_parent_def Let_def)

lemma parent_requests:
  "requests (async_send_to_parent buf n cb c) = requests c @ [new_request c (bind_callback cb)]"
  by (simp add: async_send_to_parent_def Let_def)

section \<open>The standing receive\<close>

lemma outstanding_parent [simp]:
  "outstanding_receives (async_send_to_parent buf n cb c) = outstanding_receives c"
  by (simp add: outstanding_receives_def ledger_def parent_requests is_receive_def new_request_def)

lemma outstanding_children [simp]:
  "outstanding_receives (async_send_to_children buff n cb c) = outstanding_receives c"
proof -
  obtain rs where rs: "requests (async_send_to_children buff n cb c) = requests c @ rs"
      "\<forall>r \<in> set rs. callback r = broadcast_callback (length (broadcasts c))"
    using children_requests [of buff n cb c] by blast
  have "filter is_receive rs = []"
    using rs(2) by (simp add: filter_empty_conv is_receive_def)
  then show ?thesis
    by (simp add: outstanding_receives_def ledger_def rs(1))
qed

lemma outstanding_register [simp]:
  "outstanding_receives (register_receive_handler h c) = outstanding_receives c"
  by (simp add: outstanding_receives_def ledger_def register_receive_handler_def)

lemma outstanding_set_buffer_size:
  "outstanding_receives (set_buffer_size n c) = outstanding_receives c + 1"
  by (simp add: outstanding_receives_def ledger_def set_buffer_size_def is_receive_def
      new_request_def)

lemma outstanding_new: "outstanding_receives (MpiTreeClient_new rank count) = 0"
  by (simp add: outstanding_receives_def ledger_def MpiTreeClient_new_def)

lemma poll_one_outstanding:
  assumes "poll_one t T c = Inr c'"
  shows "outstanding_receives c' = outstanding_receives c"
proof -
  have "c' = poll_tick T (if main_thread_id c = None then c\<lparr>main_thread_id := Some t\<rparr> else c)"
    using assms by (simp add: poll_one_def Let_def split: if_splits)
  then show ?thesis
    by (simp add: poll_tick_outstanding)
qed

lemma do_call_outstanding:
  assumes "do_call a c = Inr c'" and "\<not> is_Set_buffer_size a"
  shows "outstanding_receives c' = outstanding_receives c"
  using assms by (cases a) (auto simp: poll_one_outstanding)

lemma run_outstanding:
  assumes "run calls c = Inr c'" and "list_all (\<lambda>a. \<not> is_Set_buffer_size a) calls"
  shows "outstanding_receives c' = outstanding_receives c"
  using assms
proof (induction calls arbitrary: c)
  case Nil
  then show ?case by simp
next
  case (Cons a calls)
  then obtain c1 where c1: "do_call a c = Inr c1" and r: "run calls c1 = Inr c'"
    by (auto split: sum.splits)
  have "outstanding_receives c1 = outstanding_receives c"
    using c1 Cons.prems(2) by (simp add: do_call_outstanding)
  moreover have "outstanding_receives c' = outstanding_receives c1"
    using r Cons.prems(2) by (simp add: Cons.IH)
  ultimately show ?case by simp
qed

text \<open>
  Claim C1. A tick on the polling thread returns, and whatever the transport reports:
  the number of outstanding receives in the ledger is what it was before the tick (one
  stays one); the requests staged when the tick returns are receives armed during the
  tick, each with a posted \<^verbatim>\<open>MPI_Irecv\<close>, one for every receive the tick found ready,
  whatever its \<open>ok\<close>. The first receive is armed by \<^verbatim>\<open>set_buffer_size\<close>; from the
  construction and this call on, after any sequence of ticks, sends and registrations
  that does not fail, exactly one receive is outstanding.
\<close>

theorem receive_rearmed_within_tick:
  "(main_thread_id c = None \<or> main_thread_id c = Some t \<longrightarrow>
      (\<exists>c'. poll_one t T c = Inr c'
         \<and> outstanding_receives c' = outstanding_receives c
         \<and> length (requests c') = length (filter is_receive (found_ready T c))
         \<and> list_all (fresh_receive (length (mpi_posted c)) (mpi_posted c')) (requests c')))
   \<and> (list_all (\<lambda>a. \<not> is_Set_buffer_size a) calls
        \<and> run calls (set_buffer_size n (MpiTreeClient_new rank count)) = Inr c''
      \<longrightarrow> outstanding_receives c'' = 1)"
proof (intro conjI impI)
  assume th: "main_thread_id c = None \<or> main_thread_id c = Some t"
  let ?c = "c\<lparr>main_thread_id := Some t\<rparr>"
  have "poll_one t T c = Inr (poll_tick T ?c)"
    using th by (rule poll_one_Inr)
  moreover have "outstanding_receives (poll_tick T ?c) = outstanding_receives c"
    by (simp add: poll_tick_outstanding)
  moreover have "length (requests (poll_tick T ?c)) = length (filter is_receive (found_ready T c))"
    by (simp add: poll_tick_requests_length)
  moreover have "list_all (fresh_receive (length (mpi_posted c)) (mpi_posted (poll_tick T ?c)))
      (requests (poll_tick T ?c))"
    using poll_tick_fresh [of ?c T] by simp
  ultimately show "\<exists>c'. poll_one t T c = Inr c'
         \<and> outstanding_receives c' = outstanding_receives c
         \<and> length (requests c') = length (filter is_receive (found_ready T c))
         \<and> list_all (fresh_receive (length (mpi_posted c)) (mpi_posted c')) (requests c')"
    by blast
next
  assume a: "list_all (\<lambda>a. \<not> is_Set_buffer_size a) calls
        \<and> run calls (set_buffer_size n (MpiTreeClient_new rank count)) = Inr c''"
  have "outstanding_receives c'' =
      outstanding_receives (set_buffer_size n (MpiTreeClient_new rank count))"
    using a by (intro run_outstanding [of calls]) simp_all
  then show "outstanding_receives c'' = 1"
    by (simp add: outstanding_set_buffer_size outstanding_new)
qed

theorem receive_rearmed_within_tick_witness:
  "main_thread_id (set_buffer_size 4 (MpiTreeClient_new 0 3)) = None
   \<and> (\<exists>c'. poll_one 1 (\<lambda>h. Complete True 1 False 3) (set_buffer_size 4 (MpiTreeClient_new 0 3)) = Inr c'
         \<and> outstanding_receives c' = 1
         \<and> length (requests c') = 1
         \<and> list_all (fresh_receive 1 (mpi_posted c')) (requests c'))
   \<and> list_all (\<lambda>a. \<not> is_Set_buffer_size a) [Async_send_to_parent [] 0 5]
   \<and> run [Async_send_to_parent [] 0 5] (set_buffer_size 4 (MpiTreeClient_new 0 3)) =
        Inr (async_send_to_parent [] 0 5 (set_buffer_size 4 (MpiTreeClient_new 0 3)))
   \<and> outstanding_receives (async_send_to_parent [] 0 5 (set_buffer_size 4 (MpiTreeClient_new 0 3))) = 1"
proof -
  let ?c = "set_buffer_size 4 (MpiTreeClient_new 0 3)"
  let ?T = "\<lambda>h :: nat. Complete True 1 False 3"
  have m: "main_thread_id ?c = None"
    by (simp add: set_buffer_size_def MpiTreeClient_new_def)
  have p: "length (mpi_posted ?c) = 1"
    by (simp add: set_buffer_size_def MpiTreeClient_new_def)
  have o: "outstanding_receives ?c = 1"
    by (simp add: outstanding_set_buffer_size outstanding_new)
  have l: "ledger ?c = [new_request (MpiTreeClient_new 0 3) bind_received]"
    by (simp add: ledger_def set_buffer_size_def MpiTreeClient_new_def new_request_def)
  have f: "length (filter is_receive (found_ready ?T ?c)) = 1"
    by (simp add: found_ready_def l is_ready_def is_receive_def new_request_def)
  have r: "list_all (\<lambda>a. \<not> is_Set_buffer_size a) [Async_send_to_parent [] 0 5]"
    "run [Async_send_to_parent [] 0 5] ?c = Inr (async_send_to_parent [] 0 5 ?c)"
    by simp_all
  show ?thesis
    using m r receive_rearmed_within_tick [of ?c 1 ?T "[Async_send_to_parent [] 0 5]" 4 0 3
        "async_send_to_parent [] 0 5 ?c"]
    by (simp add: p o f)
qed

section \<open>Failed receives\<close>

subsection \<open>Calls of handlers\<close>

lemma call_handler_calls:
  "\<not> (cb = bind_received \<and> ok0) \<Longrightarrow>
     filter is_handler_call (trace (call cb ok0 size0 sender0 c)) = filter is_handler_call (trace c)"
  by (cases cb) (auto simp: received_trace BroadcastCallback_call_def Let_def)

lemma step_no_handler:
  "\<not> (is_receive it \<and> ok it) \<Longrightarrow> handler_calls (callback_step c it) = handler_calls c"
  by (simp add: handler_calls_def callback_step_def call_handler_calls is_receive_def)

lemma loop_no_handler:
  "list_all (\<lambda>r. \<not> (is_receive r \<and> ok r)) rs \<Longrightarrow>
     handler_calls (foldl callback_step c rs) = handler_calls c"
  by (induction rs arbitrary: c) (simp_all add: step_no_handler)

lemma is_ready_log_no_handler: "filter is_handler_call (snd (snd (is_ready T r))) = []"
  by (simp add: is_ready_def Let_def split: mpi_test.splits)

lemma test_log_no_handler [simp]: "filter is_handler_call (test_log T rs) = []"
  by (induction rs) (simp_all add: test_log_def is_ready_log_no_handler)

lemma poll_tick_no_handler:
  assumes "list_all (\<lambda>r. \<not> (is_receive r \<and> ok r)) (found_ready T c)"
  shows "handler_calls (poll_tick T c) = handler_calls c"
proof -
  let ?c1 = "fst (stable_partition T (take_requests c))"
  have "handler_calls ?c1 = handler_calls c"
    by (simp add: handler_calls_def stable_partition_trace)
  then have "handler_calls (foldl callback_step ?c1 (found_ready T c)) = handler_calls c"
    using assms by (simp add: loop_no_handler)
  then show ?thesis
    by (simp add: poll_tick_unfold handler_calls_def warn_trace)
qed

text \<open>
  Claim C10. When a receive completes with \<open>ok = false\<close>, the step of the poller for it
  adds to the trace the call of the callback and the line of the log, and no call of a
  handler; it posts one \<^verbatim>\<open>MPI_Irecv\<close> and stages the request for it. A tick in which no
  receive is found ready with \<open>ok = true\<close> calls no handler at all.
\<close>

theorem failed_receive_calls_no_handler:
  "(is_receive it \<and> \<not> ok it \<longrightarrow>
      trace (callback_step c it) =
        trace c @ [Invoke bind_received False (size' it) (sender it),
                   LOG_ERROR ''RECEIVED FAILED'']
      \<and> handler_calls (callback_step c it) = handler_calls c
      \<and> mpi_posted (callback_step c it) = mpi_posted c @ [MPI_Irecv (of_nat (length (buffer c)))]
      \<and> requests (callback_step c it) = requests c @ [new_request c bind_received])
   \<and> (list_all (\<lambda>r. \<not> (is_receive r \<and> ok r)) (found_ready T c) \<longrightarrow>
        handler_calls (poll_tick T c) = handler_calls c)"
proof (intro conjI impI)
  assume a: "is_receive it \<and> \<not> ok it"
  then show "trace (callback_step c it) =
      trace c @ [Invoke bind_received False (size' it) (sender it), LOG_ERROR ''RECEIVED FAILED'']"
    by (simp add: callback_step_def is_receive_def received_trace)
  from a show "handler_calls (callback_step c it) = handler_calls c"
    by (simp add: step_no_handler)
  from a show "mpi_posted (callback_step c it) =
      mpi_posted c @ [MPI_Irecv (of_nat (length (buffer c)))]"
    by (simp add: callback_step_posted)
  from a show "requests (callback_step c it) = requests c @ [new_request c bind_received]"
    by (simp add: callback_step_requests)
next
  assume "list_all (\<lambda>r. \<not> (is_receive r \<and> ok r)) (found_ready T c)"
  then show "handler_calls (poll_tick T c) = handler_calls c"
    by (rule poll_tick_no_handler)
qed

theorem failed_receive_calls_no_handler_witness:
  "is_receive \<lparr>req = 0, callback = bind_received, ok = False, sender = 1, size' = 3\<rparr>
   \<and> \<not> ok \<lparr>req = 0, callback = bind_received, ok = False, sender = 1, size' = 3\<rparr>
   \<and> handlers (register_receive_handler 7 (set_buffer_size 4 (MpiTreeClient_new 0 2))) = [7]
   \<and> trace (callback_step (register_receive_handler 7 (set_buffer_size 4 (MpiTreeClient_new 0 2)))
        \<lparr>req = 0, callback = bind_received, ok = False, sender = 1, size' = 3\<rparr>) =
       [Invoke bind_received False 3 1, LOG_ERROR ''RECEIVED FAILED'']
   \<and> list_all (\<lambda>r. \<not> (is_receive r \<and> ok r))
        (found_ready (\<lambda>h. Complete True 1 False 3)
           (register_receive_handler 7 (set_buffer_size 4 (MpiTreeClient_new 0 2))))
   \<and> handler_calls (poll_tick (\<lambda>h. Complete True 1 False 3)
        (register_receive_handler 7 (set_buffer_size 4 (MpiTreeClient_new 0 2)))) = []"
proof -
  let ?c = "register_receive_handler 7 (set_buffer_size 4 (MpiTreeClient_new 0 2))"
  let ?it = "\<lparr>req = 0, callback = bind_received, ok = False, sender = 1, size' = 3\<rparr>"
  let ?T = "\<lambda>h :: nat. Complete True 1 False 3"
  have i: "is_receive ?it" "\<not> ok ?it"
    by (simp_all add: is_receive_def)
  have h: "handlers ?c = [7]"
    by (simp add: register_receive_handler_def set_buffer_size_def MpiTreeClient_new_def)
  have t: "trace ?c = []"
    by (simp add: register_receive_handler_def set_buffer_size_def MpiTreeClient_new_def)
  have f: "found_ready ?T ?c = [?it]"
    by (simp add: found_ready_def ledger_def tested_def is_ready_def new_request_def
        register_receive_handler_def set_buffer_size_def MpiTreeClient_new_def)
  have l: "list_all (\<lambda>r. \<not> (is_receive r \<and> ok r)) (found_ready ?T ?c)"
    by (simp add: f)
  show ?thesis
    using i h l failed_receive_calls_no_handler [of ?it ?c ?T]
    by (simp add: t handler_calls_def)
qed

section \<open>Order of the callbacks\<close>

text \<open>
  Claim C4. A tick on the polling thread calls the callbacks of the requests it finds
  ready, one call each, in the order in which these requests stand in the ledger (the
  working set, then the staged requests): the order in which the tick finds them ready.
  Across ticks there is no such order between two sends: of two sends to the parent, the
  second can have its callback called in an earlier tick than the first.
\<close>

theorem callbacks_in_ready_order:
  "(main_thread_id c = None \<or> main_thread_id c = Some t \<longrightarrow>
      (\<exists>c'. poll_one t T c = Inr c'
         \<and> invocations c' = invocations c @ map invocation (found_ready T c)))
   \<and> (\<exists>c'. run [Async_send_to_parent [] 0 7, Async_send_to_parent [] 0 8,
                  Poll_one 0 (\<lambda>h. if h = 0 then Pending else Complete True 0 True 0),
                  Poll_one 0 (\<lambda>h. Complete True 0 True 0)]
               (MpiTreeClient_new 1 3) = Inr c'
         \<and> invocations c' =
             [Invoke (bind_callback 8) True 0 0, Invoke (bind_callback 7) True 0 0])"
proof (intro conjI impI)
  assume th: "main_thread_id c = None \<or> main_thread_id c = Some t"
  have "poll_one t T c = Inr (poll_tick T (c\<lparr>main_thread_id := Some t\<rparr>))"
    using th by (rule poll_one_Inr)
  moreover have "invocations (poll_tick T (c\<lparr>main_thread_id := Some t\<rparr>)) =
      invocations c @ map invocation (found_ready T c)"
    by (simp add: poll_tick_invocations)
  ultimately show "\<exists>c'. poll_one t T c = Inr c'
      \<and> invocations c' = invocations c @ map invocation (found_ready T c)"
    by blast
next
  define T1 :: transport where "T1 = (\<lambda>h. if h = 0 then Pending else Complete True 0 True 0)"
  define T2 :: transport where "T2 = (\<lambda>h. Complete True 0 True 0)"
  define r1 where "r1 = \<lparr>req = 0, callback = bind_callback 7, ok = False, sender = 0, size' = 0\<rparr>"
  define r2 where "r2 = \<lparr>req = 1, callback = bind_callback 8, ok = False, sender = 0, size' = 0\<rparr>"
  define c2 where
    "c2 = async_send_to_parent [] 0 8 (async_send_to_parent [] 0 7 (MpiTreeClient_new 1 3))"
  define c3 where "c3 = poll_tick T1 (c2\<lparr>main_thread_id := Some 0\<rparr>)"
  define c4 where "c4 = poll_tick T2 (c3\<lparr>main_thread_id := Some 0\<rparr>)"
  have l2: "ledger c2 = [r1, r2]"
    by (simp add: c2_def r1_def r2_def ledger_def parent_requests new_request_def
        async_send_to_parent_def MpiTreeClient_new_def Let_def)
  have m2: "main_thread_id c2 = None"
    by (simp add: c2_def async_send_to_parent_def MpiTreeClient_new_def Let_def)
  have i2: "invocations c2 = []"
    by (simp add: c2_def invocations_def async_send_to_parent_def MpiTreeClient_new_def Let_def)
  have p3: "poll_one 0 T1 c2 = Inr c3"
    unfolding c3_def using m2 by (intro poll_one_Inr) simp
  have r3: "found_ready T1 c2 = [r2\<lparr>ok := True\<rparr>]" "found_pending T1 c2 = [r1]"
    by (simp_all add: found_ready_def found_pending_def l2 is_ready_def tested_def T1_def
        r1_def r2_def)
  have i3: "invocations c3 = [Invoke (bind_callback 8) True 0 0]"
    by (simp add: c3_def poll_tick_invocations i2 r3 invocation_def r2_def)
  have q3: "requests c3 = []"
    using poll_tick_requests_length [of T1 "c2\<lparr>main_thread_id := Some 0\<rparr>"]
    by (simp add: c3_def r3 is_receive_def r2_def)
  have l3: "ledger c3 = [r1]"
    using q3 by (simp add: ledger_def [of c3]) (simp add: c3_def poll_tick_working_set r3)
  have m3: "main_thread_id c3 = Some 0"
    by (simp add: c3_def poll_tick_unfold)
  have p4: "poll_one 0 T2 c3 = Inr c4"
    unfolding c4_def using m3 by (intro poll_one_Inr) simp
  have r4: "found_ready T2 c3 = [r1\<lparr>ok := True\<rparr>]"
    by (simp add: found_ready_def l3 is_ready_def tested_def T2_def r1_def)
  have i4: "invocations c4 = [Invoke (bind_callback 8) True 0 0, Invoke (bind_callback 7) True 0 0]"
    by (simp add: c4_def poll_tick_invocations i3 r4 invocation_def r1_def)
  have "run [Async_send_to_parent [] 0 7, Async_send_to_parent [] 0 8, Poll_one 0 T1, Poll_one 0 T2]
      (MpiTreeClient_new 1 3) = Inr c4"
    using p3 p4 by (simp add: c2_def)
  then show "\<exists>c'. run [Async_send_to_parent [] 0 7, Async_send_to_parent [] 0 8,
        Poll_one 0 (\<lambda>h. if h = 0 then Pending else Complete True 0 True 0),
        Poll_one 0 (\<lambda>h. Complete True 0 True 0)] (MpiTreeClient_new 1 3) = Inr c'
      \<and> invocations c' = [Invoke (bind_callback 8) True 0 0, Invoke (bind_callback 7) True 0 0]"
    using i4 unfolding T1_def T2_def by blast
qed

theorem callbacks_in_ready_order_witness:
  "main_thread_id (async_send_to_parent [] 0 7 (MpiTreeClient_new 1 3)) = None
   \<and> (\<exists>c'. poll_one 0 (\<lambda>h. Complete True 0 True 0)
              (async_send_to_parent [] 0 7 (MpiTreeClient_new 1 3)) = Inr c'
         \<and> invocations c' = [Invoke (bind_callback 7) True 0 0])"
proof -
  define c where "c = async_send_to_parent [] 0 7 (MpiTreeClient_new 1 3)"
  define T :: transport where "T = (\<lambda>h. Complete True 0 True 0)"
  have m: "main_thread_id c = None"
    by (simp add: c_def async_send_to_parent_def MpiTreeClient_new_def Let_def)
  have i: "invocations c = []"
    by (simp add: c_def invocations_def async_send_to_parent_def MpiTreeClient_new_def Let_def)
  have f: "map invocation (found_ready T c) = [Invoke (bind_callback 7) True 0 0]"
    by (simp add: c_def T_def found_ready_def ledger_def parent_requests new_request_def
        async_send_to_parent_def MpiTreeClient_new_def Let_def is_ready_def tested_def
        invocation_def)
  have "main_thread_id c = None
      \<and> (\<exists>c'. poll_one 0 T c = Inr c' \<and> invocations c' = [Invoke (bind_callback 7) True 0 0])"
    using m callbacks_in_ready_order [of c 0 T] by (simp add: i f)
  then show ?thesis
    by (simp only: c_def T_def)
qed

section \<open>Backpressure\<close>

lemma partition_lengths:
  "length (found_pending T c) + length (found_ready T c) = length (ledger c)"
  using sum_length_filter_compl [of "\<lambda>r. fst (is_ready T r)" "ledger c"]
  by (simp add: found_pending_def found_ready_def)

lemma poll_tick_thread [simp]: "main_thread_id (poll_tick T c) = main_thread_id c"
  by (simp add: poll_tick_unfold)

lemma sends_to_parent_thread:
  "main_thread_id ((async_send_to_parent buf n cb ^^ k) c) = main_thread_id c"
  by (induction k) (simp_all add: async_send_to_parent_def Let_def)

lemma sends_to_parent_ledger:
  "length (ledger ((async_send_to_parent buf n cb ^^ k) c)) = length (ledger c) + k"
  by (induction k) (simp_all add: ledger_def parent_requests)

lemma sends_to_parent_trace:
  "trace ((async_send_to_parent buf n cb ^^ k) c) = trace c"
  by (induction k) (simp_all add: async_send_to_parent_def Let_def)

text \<open>
  Claim C7. A tick on the polling thread keeps in the working set exactly the requests it
  did not find ready, unchanged and in order, and calls the callback of each of the
  others: none is dropped. It logs the warning exactly when more than 100 requests
  remain in the working set. In particular, with 101 requests in the ledger that the
  transport reports as pending, the tick logs the warning and keeps all 101 in the
  working set; a later tick at which the transport reports them complete calls the 101
  callbacks and empties the working set.
\<close>

theorem backpressure_drops_nothing:
  "(main_thread_id c = None \<or> main_thread_id c = Some t \<longrightarrow>
      (\<exists>c'. poll_one t T c = Inr c'
         \<and> requests_to_process c' = found_pending T c
         \<and> invocations c' = invocations c @ map invocation (found_ready T c)
         \<and> length (found_pending T c) + length (found_ready T c) = length (ledger c)
         \<and> warnings c' = warnings c @
             (if 100 < length (found_pending T c)
              then [LOG_WARNING ''a lot of requests to process in tree cluster: ''
                      (length (found_pending T c))]
              else [])))
   \<and> ((main_thread_id c = None \<or> main_thread_id c = Some t) \<and> length (ledger c) = 101
        \<and> (\<forall>r \<in> set (ledger c). T1 (req r) = Pending \<and> T2 (req r) \<noteq> Pending) \<longrightarrow>
      (\<exists>c1 c2. poll_one t T1 c = Inr c1
         \<and> requests_to_process c1 = ledger c
         \<and> invocations c1 = invocations c
         \<and> warnings c1 = warnings c @
              [LOG_WARNING ''a lot of requests to process in tree cluster: '' 101]
         \<and> poll_one t T2 c1 = Inr c2
         \<and> requests_to_process c2 = []
         \<and> invocations c2 = invocations c @ map invocation (map (tested T2) (ledger c))))"
proof (intro conjI impI)
  assume th: "main_thread_id c = None \<or> main_thread_id c = Some t"
  let ?c = "c\<lparr>main_thread_id := Some t\<rparr>"
  have "poll_one t T c = Inr (poll_tick T ?c)"
    using th by (rule poll_one_Inr)
  moreover have "requests_to_process (poll_tick T ?c) = found_pending T c"
    by (simp add: poll_tick_working_set)
  moreover have "invocations (poll_tick T ?c) = invocations c @ map invocation (found_ready T c)"
    by (simp add: poll_tick_invocations)
  moreover have "warnings (poll_tick T ?c) = warnings c @
      (if 100 < length (found_pending T c)
       then [LOG_WARNING ''a lot of requests to process in tree cluster: ''
               (length (found_pending T c))]
       else [])"
    by (simp add: poll_tick_warnings)
  ultimately show "\<exists>c'. poll_one t T c = Inr c'
      \<and> requests_to_process c' = found_pending T c
      \<and> invocations c' = invocations c @ map invocation (found_ready T c)
      \<and> length (found_pending T c) + length (found_ready T c) = length (ledger c)
      \<and> warnings c' = warnings c @
          (if 100 < length (found_pending T c)
           then [LOG_WARNING ''a lot of requests to process in tree cluster: ''
                   (length (found_pending T c))]
           else [])"
    using partition_lengths [of T c] by blast
next
  assume a: "(main_thread_id c = None \<or> main_thread_id c = Some t) \<and> length (ledger c) = 101
      \<and> (\<forall>r \<in> set (ledger c). T1 (req r) = Pending \<and> T2 (req r) \<noteq> Pending)"
  let ?c = "c\<lparr>main_thread_id := Some t\<rparr>"
  define c1 where "c1 = poll_tick T1 ?c"
  define c2 where "c2 = poll_tick T2 (c1\<lparr>main_thread_id := Some t\<rparr>)"
  have p1: "\<forall>r \<in> set (ledger c). T1 (req r) = Pending"
    and p2: "\<forall>r \<in> set (ledger c). T2 (req r) \<noteq> Pending"
    using a by simp_all
  have f1: "found_pending T1 c = ledger c" "found_ready T1 c = []"
    using all_pending [OF p1] by simp_all
  have o1: "poll_one t T1 c = Inr c1"
    unfolding c1_def using a by (intro poll_one_Inr) simp
  have w1: "requests_to_process c1 = ledger c"
    by (simp add: c1_def poll_tick_working_set f1)
  have i1: "invocations c1 = invocations c"
    by (simp add: c1_def poll_tick_invocations f1)
  have g1: "warnings c1 = warnings c @
      [LOG_WARNING ''a lot of requests to process in tree cluster: '' 101]"
    using a by (simp add: c1_def poll_tick_warnings f1)
  have "requests c1 = []"
    unfolding c1_def by (rule poll_tick_no_ready) (simp add: f1)
  then have l1: "ledger c1 = ledger c"
    by (simp add: ledger_def [of c1] w1)
  have "main_thread_id c1 = Some t"
    by (simp add: c1_def)
  then have o2: "poll_one t T2 c1 = Inr c2"
    unfolding c2_def by (intro poll_one_Inr) simp
  have p2': "\<forall>r \<in> set (ledger c1). T2 (req r) \<noteq> Pending"
    using p2 by (simp add: l1)
  have f2: "found_pending T2 c1 = []" "found_ready T2 c1 = map (tested T2) (ledger c)"
    using all_complete [OF p2'] by (simp_all add: l1)
  have w2: "requests_to_process c2 = []"
    by (simp add: c2_def poll_tick_working_set f2)
  have i2: "invocations c2 = invocations c @ map invocation (map (tested T2) (ledger c))"
    by (simp add: c2_def poll_tick_invocations f2 i1)
  show "\<exists>c1 c2. poll_one t T1 c = Inr c1
      \<and> requests_to_process c1 = ledger c
      \<and> invocations c1 = invocations c
      \<and> warnings c1 = warnings c @
           [LOG_WARNING ''a lot of requests to process in tree cluster: '' 101]
      \<and> poll_one t T2 c1 = Inr c2
      \<and> requests_to_process c2 = []
      \<and> invocations c2 = invocations c @ map invocation (map (tested T2) (ledger c))"
    using o1 w1 i1 g1 o2 w2 i2 by blast
qed

theorem backpressure_drops_nothing_witness:
  "main_thread_id ((async_send_to_parent [] 0 7 ^^ 101) (MpiTreeClient_new 1 3)) = None
   \<and> length (ledger ((async_send_to_parent [] 0 7 ^^ 101) (MpiTreeClient_new 1 3))) = 101
   \<and> (\<exists>c1 c2. poll_one 0 (\<lambda>h. Pending)
                  ((async_send_to_parent [] 0 7 ^^ 101) (MpiTreeClient_new 1 3)) = Inr c1
         \<and> length (requests_to_process c1) = 101
         \<and> warnings c1 = [LOG_WARNING ''a lot of requests to process in tree cluster: '' 101]
         \<and> poll_one 0 (\<lambda>h. Complete True 0 True 0) c1 = Inr c2
         \<and> requests_to_process c2 = []
         \<and> length (invocations c2) = 101)"
proof -
  define c where "c = (async_send_to_parent [] 0 7 ^^ 101) (MpiTreeClient_new 1 3)"
  define T1 :: transport where "T1 = (\<lambda>h. Pending)"
  define T2 :: transport where "T2 = (\<lambda>h. Complete True 0 True 0)"
  have m: "main_thread_id c = None"
    by (simp add: c_def sends_to_parent_thread MpiTreeClient_new_def)
  have l: "length (ledger c) = 101"
    by (simp add: c_def sends_to_parent_ledger) (simp add: ledger_def MpiTreeClient_new_def)
  have t: "trace c = []"
    by (simp add: c_def sends_to_parent_trace MpiTreeClient_new_def)
  have p: "\<forall>r \<in> set (ledger c). T1 (req r) = Pending \<and> T2 (req r) \<noteq> Pending"
    by (simp add: T1_def T2_def)
  obtain c1 c2 where r: "poll_one 0 T1 c = Inr c1" "requests_to_process c1 = ledger c"
      "warnings c1 = warnings c @ [LOG_WARNING ''a lot of requests to process in tree cluster: '' 101]"
      "poll_one 0 T2 c1 = Inr c2" "requests_to_process c2 = []"
      "invocations c2 = invocations c @ map invocation (map (tested T2) (ledger c))"
    using backpressure_drops_nothing [of c 0 T1 T1 T2] m l p by blast
  have e: "warnings c = []" "invocations c = []"
    by (simp_all add: warnings_def invocations_def t)
  have "length (requests_to_process c1) = 101"
    by (simp add: r(2) l)
  moreover have "warnings c1 = [LOG_WARNING ''a lot of requests to process in tree cluster: '' 101]"
    by (simp add: r(3) e)
  moreover have "length (invocations c2) = 101"
    by (simp add: r(6) e l)
  ultimately have "main_thread_id c = None \<and> length (ledger c) = 101
      \<and> (\<exists>c1 c2. poll_one 0 T1 c = Inr c1
         \<and> length (requests_to_process c1) = 101
         \<and> warnings c1 = [LOG_WARNING ''a lot of requests to process in tree cluster: '' 101]
         \<and> poll_one 0 T2 c1 = Inr c2
         \<and> requests_to_process c2 = []
         \<and> length (invocations c2) = 101)"
    using m l r(1) r(4) r(5) by blast
  then show ?thesis
    by (simp only: c_def T1_def T2_def)
qed

section \<open>Dispatch of received messages\<close>

lemma dispatched_handler_calls [simp]:
  "filter is_handler_call (dispatched c it) = dispatched c it"
  by (simp add: dispatched_def filter_id_conv)

lemma dispatched_cong:
  "handlers c' = handlers c \<Longrightarrow> buffer c' = buffer c \<Longrightarrow>
     mpi_current_proc_rank c' = mpi_current_proc_rank c \<Longrightarrow> dispatched c' = dispatched c"
  by (rule ext) (simp add: dispatched_def id'_def)

lemma step_handler_calls:
  "handler_calls (callback_step c it) =
     handler_calls c @ (if is_receive it \<and> ok it then dispatched c it else [])"
proof (cases "is_receive it \<and> ok it")
  case True
  then have "trace (callback_step c it) = trace c @ invocation it # dispatched c it"
    by (simp add: callback_step_def is_receive_def received_trace dispatched_def invocation_def)
  then show ?thesis
    using True by (simp add: handler_calls_def invocation_def)
next
  case False
  then have "handler_calls (callback_step c it) = handler_calls c"
    by (rule step_no_handler)
  then show ?thesis
    using False by auto
qed

lemma loop_handler_calls:
  "handler_calls (foldl callback_step c rs) =
     handler_calls c @ concat (map (dispatched c) (filter (\<lambda>r. is_receive r \<and> ok r) rs))"
proof (induction rs arbitrary: c)
  case Nil
  then show ?case by simp
next
  case (Cons it rs)
  have "dispatched (callback_step c it) = dispatched c"
    by (rule dispatched_cong) simp_all
  then show ?case
    by (simp add: Cons.IH step_handler_calls)
qed

lemma poll_tick_handler_calls:
  "handler_calls (poll_tick T c) =
     handler_calls c @
     concat (map (dispatched c) (filter (\<lambda>r. is_receive r \<and> ok r) (found_ready T c)))"
proof -
  let ?c1 = "fst (stable_partition T (take_requests c))"
  have h: "handler_calls ?c1 = handler_calls c"
    by (simp add: handler_calls_def stable_partition_trace)
  have d: "dispatched ?c1 = dispatched c"
    by (rule dispatched_cong) simp_all
  have "handler_calls (poll_tick T c) = handler_calls (foldl callback_step ?c1 (found_ready T c))"
    by (simp add: poll_tick_unfold handler_calls_def warn_trace)
  then show ?thesis
    by (simp add: loop_handler_calls h d)
qed

text \<open>
  Claim C8, as amended. On every receive completion with \<open>ok = true\<close>, the trace grows by
  the calls of the handlers, all of them and in the order of registration: the
  parent-message entry point with \<open>(buffer, size)\<close> when the sender is \<open>parent()\<close>, the
  child-message entry point with \<open>(buffer, size, sender)\<close> otherwise. The calls of
  handlers during a tick on the polling thread are these calls, for the receives the tick
  finds ready with \<open>ok = true\<close>, in the order it finds them.
\<close>

theorem dispatch_by_sender:
  "trace (received True size0 sender0 c) = trace c @
     (if scast sender0 = parent (id' c)
      then map (\<lambda>h. received_from_parent h (buffer c) size0) (handlers c)
      else map (\<lambda>h. received_from_child h (buffer c) size0 sender0) (handlers c))
   \<and> (main_thread_id c = None \<or> main_thread_id c = Some t \<longrightarrow>
        (\<exists>c'. poll_one t T c = Inr c'
           \<and> handler_calls c' = handler_calls c @
               concat (map (dispatched c)
                 (filter (\<lambda>r. is_receive r \<and> ok r) (found_ready T c)))))"
proof (intro conjI impI)
  show "trace (received True size0 sender0 c) = trace c @
     (if scast sender0 = parent (id' c)
      then map (\<lambda>h. received_from_parent h (buffer c) size0) (handlers c)
      else map (\<lambda>h. received_from_child h (buffer c) size0 sender0) (handlers c))"
    by (simp add: received_trace)
next
  assume th: "main_thread_id c = None \<or> main_thread_id c = Some t"
  let ?c = "c\<lparr>main_thread_id := Some t\<rparr>"
  have "dispatched ?c = dispatched c"
    by (rule dispatched_cong) simp_all
  moreover have "handler_calls ?c = handler_calls c"
    by (simp add: handler_calls_def)
  ultimately have "handler_calls (poll_tick T ?c) = handler_calls c @
      concat (map (dispatched c) (filter (\<lambda>r. is_receive r \<and> ok r) (found_ready T c)))"
    by (simp add: poll_tick_handler_calls)
  moreover have "poll_one t T c = Inr (poll_tick T ?c)"
    using th by (rule poll_one_Inr)
  ultimately show "\<exists>c'. poll_one t T c = Inr c'
      \<and> handler_calls c' = handler_calls c @
          concat (map (dispatched c) (filter (\<lambda>r. is_receive r \<and> ok r) (found_ready T c)))"
    by blast
qed

theorem dispatch_by_sender_witness:
  "main_thread_id (register_receive_handler 8 (register_receive_handler 7
      (set_buffer_size 2 (MpiTreeClient_new 1 3)))) = None
   \<and> (\<exists>c'. poll_one 0 (\<lambda>h. Complete True 0 True 2)
        (register_receive_handler 8 (register_receive_handler 7
          (set_buffer_size 2 (MpiTreeClient_new 1 3)))) = Inr c'
      \<and> handler_calls c' = [received_from_parent 7 [0, 0] 2, received_from_parent 8 [0, 0] 2])
   \<and> (\<exists>c'. poll_one 0 (\<lambda>h. Complete True 4 True 2)
        (register_receive_handler 8 (register_receive_handler 7
          (set_buffer_size 2 (MpiTreeClient_new 1 3)))) = Inr c'
      \<and> handler_calls c' = [received_from_child 7 [0, 0] 2 4, received_from_child 8 [0, 0] 2 4])"
proof -
  define c where "c = register_receive_handler 8 (register_receive_handler 7
      (set_buffer_size 2 (MpiTreeClient_new 1 3)))"
  define Tp :: transport where "Tp = (\<lambda>h. Complete True 0 True 2)"
  define Tc :: transport where "Tc = (\<lambda>h. Complete True 4 True 2)"
  have m: "main_thread_id c = None"
    by (simp add: c_def register_receive_handler_def set_buffer_size_def MpiTreeClient_new_def)
  have h: "handler_calls c = []"
    by (simp add: c_def handler_calls_def register_receive_handler_def set_buffer_size_def
        MpiTreeClient_new_def)
  have l: "ledger c = [\<lparr>req = 0, callback = bind_received, ok = False, sender = 0, size' = 0\<rparr>]"
    by (simp add: c_def ledger_def register_receive_handler_def set_buffer_size_def
        MpiTreeClient_new_def new_request_def)
  have p: "parent (id' c) = 0"
    by (simp add: c_def id'_def register_receive_handler_def set_buffer_size_def
        MpiTreeClient_new_def parent_def to_double_def)
  have rep: "replicate 2 (0 :: byte) = [0, 0]"
    by (simp add: numeral_2_eq_2)
  have b: "buffer c = [0, 0]" "handlers c = [7, 8]"
    by (simp_all add: c_def register_receive_handler_def set_buffer_size_def
        MpiTreeClient_new_def resize_def rep)
  have fp: "concat (map (dispatched c) (filter (\<lambda>r. is_receive r \<and> ok r) (found_ready Tp c))) =
      [received_from_parent 7 [0, 0] 2, received_from_parent 8 [0, 0] 2]"
    by (simp add: found_ready_def l is_ready_def tested_def Tp_def is_receive_def dispatched_def
        p b)
  have fc: "concat (map (dispatched c) (filter (\<lambda>r. is_receive r \<and> ok r) (found_ready Tc c))) =
      [received_from_child 7 [0, 0] 2 4, received_from_child 8 [0, 0] 2 4]"
    by (simp add: found_ready_def l is_ready_def tested_def Tc_def is_receive_def dispatched_def
        p b)
  have "main_thread_id c = None
      \<and> (\<exists>c'. poll_one 0 Tp c = Inr c'
          \<and> handler_calls c' = [received_from_parent 7 [0, 0] 2, received_from_parent 8 [0, 0] 2])
      \<and> (\<exists>c'. poll_one 0 Tc c = Inr c'
          \<and> handler_calls c' = [received_from_child 7 [0, 0] 2 4, received_from_child 8 [0, 0] 2 4])"
    using m dispatch_by_sender [of 0 0 c 0 Tp] dispatch_by_sender [of 0 0 c 0 Tc]
    by (simp add: h fp fc)
  then show ?thesis
    by (simp only: c_def Tp_def Tc_def)
qed

text \<open>
  The claim as stated, for every receive completion, fails: a completion with
  \<open>ok = false\<close> at rank 0 of 2, with handler 7 registered, calls no handler.
\<close>

theorem dispatch_every_completion_counterexample:
  "trace (received False 3 1 (register_receive_handler 7 (MpiTreeClient_new 0 2))) =
     [LOG_ERROR ''RECEIVED FAILED'']"
  by (simp add: received_trace register_receive_handler_def MpiTreeClient_new_def post_def)

section \<open>The fan-out aggregator\<close>

subsection \<open>What a call of a callback does to an aggregator\<close>

lemma pending_of_holds: "pending_of b c = length (filter (holds_copy b) (ledger c))"
  by (simp add: pending_of_def holds_copy_def [abs_def])

lemma outcomes_append:
  "trace c' = trace c @ es \<Longrightarrow> outcomes b c' = outcomes b c @ concat (map (outcome b) es)"
  by (simp add: outcomes_def)

lemma done_calls_append:
  "trace c' = trace c @ es \<Longrightarrow> done_calls b c' = done_calls b c @ concat (map (done_call b) es)"
  by (simp add: done_calls_def)

lemma call_length_broadcasts [simp]:
  "length (broadcasts (call cb ok0 size0 sender0 c)) = length (broadcasts c)"
  by (cases cb) (simp_all add: BroadcastCallback_call_def Let_def)

lemma step_length_broadcasts [simp]:
  "length (broadcasts (callback_step c it)) = length (broadcasts c)"
  by (simp add: callback_step_def)

lemma loop_length_broadcasts [simp]:
  "length (broadcasts (foldl callback_step c rs)) = length (broadcasts c)"
  by (induction rs arbitrary: c) simp_all

lemma dispatch_no_outcome:
  "concat (map (outcome b) (map (\<lambda>h. received_from_parent h buf n) hs)) = []"
  "concat (map (outcome b) (map (\<lambda>h. received_from_child h buf n s) hs)) = []"
  "concat (map (done_call b) (map (\<lambda>h. received_from_parent h buf n) hs)) = []"
  "concat (map (done_call b) (map (\<lambda>h. received_from_child h buf n s) hs)) = []"
  by (induction hs) simp_all

text \<open>A step for a request that holds no copy of \<open>b\<close> leaves the aggregator \<open>b\<close> alone.\<close>

lemma step_other:
  assumes "\<not> holds_copy b it"
  shows "outcomes b (callback_step c it) = outcomes b c"
    and "done_calls b (callback_step c it) = done_calls b c"
    and "b < length (broadcasts c) \<Longrightarrow> broadcasts (callback_step c it) ! b = broadcasts c ! b"
proof -
  show "outcomes b (callback_step c it) = outcomes b c"
    using assms
    by (cases "callback it")
       (auto simp: callback_step_def outcomes_def received_trace dispatch_no_outcome
          BroadcastCallback_call_def Let_def holds_copy_def)
  show "done_calls b (callback_step c it) = done_calls b c"
    using assms
    by (cases "callback it")
       (auto simp: callback_step_def done_calls_def received_trace dispatch_no_outcome
          BroadcastCallback_call_def Let_def holds_copy_def)
  show "broadcasts (callback_step c it) ! b = broadcasts c ! b" if "b < length (broadcasts c)"
    using assms that
    by (cases "callback it")
       (auto simp: callback_step_def BroadcastCallback_call_def Let_def holds_copy_def)
qed

text \<open>A step for a request that holds a copy of \<open>b\<close>: one more completion.\<close>

lemma step_copy:
  assumes "holds_copy b it" and "aggregated b cb n (Suc p) c"
  shows "aggregated b cb n p (callback_step c it)"
proof -
  have cbk: "callback it = broadcast_callback b"
    using assms(1) by (simp add: holds_copy_def)
  have b: "b < length (broadcasts c)" and cnt: "counter (broadcasts c ! b) = int (Suc p)"
    and od: "on_done (broadcasts c ! b) = cb"
    and res: "result (broadcasts c ! b) = conj_all (outcomes b c)"
    and len: "length (outcomes b c) + Suc p = n"
    and dn: "done_calls b c = []"
    using assms(2) by (simp_all add: aggregated_def)
  let ?c = "callback_step c it"
  have nb: "broadcasts ?c ! b =
      (broadcasts c ! b)\<lparr>counter := int p, result := (conj_all (outcomes b c) \<and> ok it)\<rparr>"
    using b cnt res by (simp add: callback_step_def cbk BroadcastCallback_call_def Let_def)
  have tr: "trace ?c = trace c @ Invoke (broadcast_callback b) (ok it) (size' it) (sender it) #
      (if p = 0 then [Broadcast_done b cb (conj_all (outcomes b c) \<and> ok it)] else [])"
    using b cnt res od by (simp add: callback_step_def cbk BroadcastCallback_call_def Let_def)
  have oc: "outcomes b ?c = outcomes b c @ [ok it]"
    using outcomes_append [OF tr, of b] by simp
  have dc: "done_calls b ?c =
      (if p = 0 then [(cb, conj_all (outcomes b c) \<and> ok it)] else [])"
    using done_calls_append [OF tr, of b] by (simp add: dn)
  have ca: "conj_all (outcomes b c @ [ok it]) = (conj_all (outcomes b c) \<and> ok it)"
    by (simp add: conj_all_def)
  show ?thesis
    using b od len by (simp add: aggregated_def nb oc dc ca)
qed

lemma step_keeps:
  assumes "\<not> holds_copy b it" and "aggregated b cb n p c"
  shows "aggregated b cb n p (callback_step c it)"
  using assms(2) step_other [OF assms(1), of c] by (simp add: aggregated_def)

lemma loop_aggregated:
  assumes "aggregated b cb n (p + length (filter (holds_copy b) rs)) c"
  shows "aggregated b cb n p (foldl callback_step c rs)"
  using assms
proof (induction rs arbitrary: c)
  case Nil
  then show ?case by simp
next
  case (Cons it rs)
  show ?case
  proof (cases "holds_copy b it")
    case True
    then have "aggregated b cb n (Suc (p + length (filter (holds_copy b) rs))) c"
      using Cons.prems by simp
    with True have "aggregated b cb n (p + length (filter (holds_copy b) rs)) (callback_step c it)"
      by (rule step_copy)
    then show ?thesis
      by (simp add: Cons.IH)
  next
    case False
    then have "aggregated b cb n (p + length (filter (holds_copy b) rs)) c"
      using Cons.prems by simp
    with False have "aggregated b cb n (p + length (filter (holds_copy b) rs)) (callback_step c it)"
      by (rule step_keeps)
    then show ?thesis
      by (simp add: Cons.IH)
  qed
qed

lemma loop_other:
  assumes "list_all (\<lambda>r. \<not> holds_copy b r) rs"
  shows "outcomes b (foldl callback_step c rs) = outcomes b c
     \<and> done_calls b (foldl callback_step c rs) = done_calls b c"
  using assms
  by (induction rs arbitrary: c) (simp_all add: step_other)

subsection \<open>What a tick does to an aggregator\<close>

lemma aggregated_cong:
  assumes "broadcasts c' = broadcasts c" and "outcomes b c' = outcomes b c"
    and "done_calls b c' = done_calls b c"
  shows "aggregated b cb n p c' = aggregated b cb n p c"
  using assms by (simp add: aggregated_def)

lemma is_ready_log_no_outcome:
  "concat (map (outcome b) (snd (snd (is_ready T r)))) = []"
  "concat (map (done_call b) (snd (snd (is_ready T r)))) = []"
  by (auto simp: is_ready_def Let_def split: mpi_test.splits)

lemma test_log_no_outcome:
  "concat (map (outcome b) (test_log T rs)) = []"
  "concat (map (done_call b) (test_log T rs)) = []"
  by (induction rs) (simp_all add: test_log_def is_ready_log_no_outcome)

lemma partition_aggregator:
  "outcomes b (fst (stable_partition T (take_requests c))) = outcomes b c"
  "done_calls b (fst (stable_partition T (take_requests c))) = done_calls b c"
  by (simp_all add: outcomes_def done_calls_def stable_partition_trace test_log_no_outcome)

lemma finish_aggregator:
  "outcomes b (post (warn (erase m c))) = outcomes b c"
  "done_calls b (post (warn (erase m c))) = done_calls b c"
  by (simp_all add: outcomes_def done_calls_def warn_trace)

lemma holds_copy_tested [simp]: "holds_copy b (tested T r) = holds_copy b r"
  by (simp add: holds_copy_def)

lemma ready_copies:
  "length (filter (holds_copy b) (found_ready T c)) =
     length (filter (holds_copy b) (filter (\<lambda>r. fst (is_ready T r)) (ledger c)))"
  by (simp add: found_ready_def filter_map comp_def)

lemma receive_holds_no_copy: "is_receive r \<Longrightarrow> \<not> holds_copy b r"
  by (simp add: is_receive_def holds_copy_def)

lemma poll_tick_pending:
  "pending_of b (poll_tick T c) + length (filter (holds_copy b) (found_ready T c)) =
     pending_of b c"
proof -
  have "filter (holds_copy b) (requests (poll_tick T c)) = []"
    using poll_tick_fresh [of c T]
    by (simp add: list_all_iff fresh_receive_def filter_empty_conv receive_holds_no_copy)
  then have "pending_of b (poll_tick T c) = length (filter (holds_copy b) (found_pending T c))"
    by (simp add: pending_of_holds ledger_def [of "poll_tick T c"] poll_tick_working_set)
  then show ?thesis
    using count_split [of "holds_copy b" "\<lambda>r. fst (is_ready T r)" "ledger c"]
    by (simp add: ready_copies found_pending_def pending_of_holds)
qed

lemma poll_tick_aggregated:
  assumes "aggregated b cb n (pending_of b c) c"
  shows "aggregated b cb n (pending_of b (poll_tick T c)) (poll_tick T c)"
proof -
  let ?c1 = "fst (stable_partition T (take_requests c))"
  let ?p = "pending_of b (poll_tick T c)"
  let ?c2 = "foldl callback_step ?c1 (found_ready T c)"
  have "aggregated b cb n (pending_of b c) ?c1"
    using assms by (simp add: aggregated_cong [of ?c1 c] partition_aggregator)
  then have "aggregated b cb n (?p + length (filter (holds_copy b) (found_ready T c))) ?c1"
    by (simp only: poll_tick_pending)
  then have "aggregated b cb n ?p ?c2"
    by (rule loop_aggregated)
  moreover have "aggregated b cb n ?p (post (warn (erase (length (found_ready T c)) ?c2))) =
      aggregated b cb n ?p ?c2"
    by (rule aggregated_cong) (simp_all add: finish_aggregator)
  ultimately show ?thesis
    by (simp only: poll_tick_unfold [symmetric])
qed

lemma poll_tick_other:
  assumes "pending_of b c = 0"
  shows "pending_of b (poll_tick T c) = 0"
    and "outcomes b (poll_tick T c) = outcomes b c"
    and "done_calls b (poll_tick T c) = done_calls b c"
proof -
  show "pending_of b (poll_tick T c) = 0"
    using poll_tick_pending [of b T c] assms by simp
  have "length (filter (holds_copy b) (found_ready T c)) = 0"
    using poll_tick_pending [of b T c] assms by simp
  then have n: "list_all (\<lambda>r. \<not> holds_copy b r) (found_ready T c)"
    by (simp add: list_all_iff filter_empty_conv)
  let ?c1 = "fst (stable_partition T (take_requests c))"
  show "outcomes b (poll_tick T c) = outcomes b c"
    using loop_other [OF n, of ?c1]
    by (simp add: poll_tick_unfold finish_aggregator partition_aggregator)
  show "done_calls b (poll_tick T c) = done_calls b c"
    using loop_other [OF n, of ?c1]
    by (simp add: poll_tick_unfold finish_aggregator partition_aggregator)
qed

lemma poll_tick_length_broadcasts [simp]:
  "length (broadcasts (poll_tick T c)) = length (broadcasts c)"
  by (simp add: poll_tick_unfold)

subsection \<open>What the other calls do to an aggregator\<close>

lemma wrap_broadcasts:
  "b < length (broadcasts c) \<Longrightarrow>
     broadcasts (BroadcastCallback_wrap b c) =
       (broadcasts c)[b := (broadcasts c ! b)\<lparr>counter := counter (broadcasts c ! b) + 1\<rparr>]"
  by (simp add: BroadcastCallback_wrap_def Let_def)

lemma sends_broadcasts:
  "b < length (broadcasts c) \<Longrightarrow>
     broadcasts (foldl (send_to_child b buff n) c ids) =
       (broadcasts c)[b := (broadcasts c ! b)\<lparr>counter := counter (broadcasts c ! b) + int (length ids)\<rparr>]"
proof (induction ids arbitrary: c)
  case Nil
  then show ?case by simp
next
  case (Cons i ids)
  let ?c = "send_to_child b buff n c i"
  have l: "b < length (broadcasts ?c)"
    using Cons.prems by simp
  show ?case
    using Cons.prems by (simp add: Cons.IH [OF l] wrap_broadcasts add.assoc)
qed

lemma children_broadcasts:
  "broadcasts (async_send_to_children buff n cb c) =
     broadcasts c @ [\<lparr>counter = int (length (children (id' c) (mpi_comm_size c))),
                      result = True, on_done = cb\<rparr>]"
  by (simp add: async_send_to_children_def Let_def sends_broadcasts nth_append)

lemma children_trace:
  "trace (async_send_to_children buff n cb c) = trace c @
     (if children (id' c) (mpi_comm_size c) = []
      then [Broadcast_done (length (broadcasts c)) cb True] else [])"
  by (simp add: async_send_to_children_def Let_def BroadcastCallback_issued_def)

lemma children_ledger:
  "\<exists>rs. ledger (async_send_to_children buff n cb c) = ledger c @ rs
        \<and> length rs = length (children (id' c) (mpi_comm_size c))
        \<and> (\<forall>r \<in> set rs. holds_copy (length (broadcasts c)) r)"
  using children_requests [of buff n cb c] by (auto simp: ledger_def holds_copy_def)

lemma children_pending:
  "pending_of b (async_send_to_children buff n cb c) =
     pending_of b c +
     (if b = length (broadcasts c) then length (children (id' c) (mpi_comm_size c)) else 0)"
proof -
  obtain rs where rs: "ledger (async_send_to_children buff n cb c) = ledger c @ rs"
      "length rs = length (children (id' c) (mpi_comm_size c))"
      "\<forall>r \<in> set rs. holds_copy (length (broadcasts c)) r"
    using children_ledger [of buff n cb c] by blast
  have "filter (holds_copy b) rs = (if b = length (broadcasts c) then rs else [])"
    using rs(3) by (auto simp: filter_id_conv filter_empty_conv holds_copy_def)
  then show ?thesis
    by (simp add: pending_of_holds rs(1) rs(2))
qed

lemma children_outcomes [simp]:
  "outcomes b (async_send_to_children buff n cb c) = outcomes b c"
  by (simp add: outcomes_def children_trace)

lemma children_done_calls:
  "done_calls b (async_send_to_children buff n cb c) = done_calls b c @
     (if b = length (broadcasts c) \<and> children (id' c) (mpi_comm_size c) = []
      then [(cb, True)] else [])"
  by (simp add: done_calls_def children_trace)

lemma parent_aggregator [simp]:
  "broadcasts (async_send_to_parent buf n cb c) = broadcasts c"
  "pending_of b (async_send_to_parent buf n cb c) = pending_of b c"
  "outcomes b (async_send_to_parent buf n cb c) = outcomes b c"
  "done_calls b (async_send_to_parent buf n cb c) = done_calls b c"
  by (simp_all add: async_send_to_parent_def Let_def pending_of_def ledger_def outcomes_def
      done_calls_def new_request_def)

lemma set_buffer_size_aggregator [simp]:
  "broadcasts (set_buffer_size n c) = broadcasts c"
  "pending_of b (set_buffer_size n c) = pending_of b c"
  "outcomes b (set_buffer_size n c) = outcomes b c"
  "done_calls b (set_buffer_size n c) = done_calls b c"
  by (simp_all add: set_buffer_size_def pending_of_def ledger_def outcomes_def
      done_calls_def new_request_def)

lemma register_aggregator [simp]:
  "broadcasts (register_receive_handler h c) = broadcasts c"
  "pending_of b (register_receive_handler h c) = pending_of b c"
  "outcomes b (register_receive_handler h c) = outcomes b c"
  "done_calls b (register_receive_handler h c) = done_calls b c"
  by (simp_all add: register_receive_handler_def pending_of_def ledger_def outcomes_def
      done_calls_def)

lemma thread_aggregator [simp]:
  "pending_of b (c\<lparr>main_thread_id := x\<rparr>) = pending_of b c"
  "outcomes b (c\<lparr>main_thread_id := x\<rparr>) = outcomes b c"
  "done_calls b (c\<lparr>main_thread_id := x\<rparr>) = done_calls b c"
  "aggregated b cb n p (c\<lparr>main_thread_id := x\<rparr>) = aggregated b cb n p c"
  "consistent (c\<lparr>main_thread_id := x\<rparr>) = consistent c"
  by (simp_all add: pending_of_def outcomes_def done_calls_def aggregated_def consistent_def)

lemma poll_one_cases:
  assumes "poll_one t T c = Inr c'"
  obtains x where "c' = poll_tick T (c\<lparr>main_thread_id := x\<rparr>)"
proof (cases "main_thread_id c")
  case None
  then have "c' = poll_tick T (c\<lparr>main_thread_id := Some t\<rparr>)"
    using assms by (simp add: poll_one_def)
  then show ?thesis by (rule that)
next
  case (Some u)
  then have "c' = poll_tick T c"
    using assms by (simp add: poll_one_def split: if_splits)
  moreover have "c\<lparr>main_thread_id := Some u\<rparr> = c"
    using Some by simp
  ultimately have "c' = poll_tick T (c\<lparr>main_thread_id := Some u\<rparr>)"
    by simp
  then show ?thesis by (rule that)
qed

subsection \<open>Consistency of the reachable states\<close>

lemma consistent_new: "consistent (MpiTreeClient_new rank count)"
  by (simp add: consistent_def MpiTreeClient_new_def pending_of_def ledger_def outcomes_def
      done_calls_def)

lemma consistent_do_call:
  assumes "consistent c" and "do_call a c = Inr c'"
  shows "consistent c'"
proof (cases a)
  case (Poll_one t T)
  then obtain x where c': "c' = poll_tick T (c\<lparr>main_thread_id := x\<rparr>)"
    using assms(2) by (auto elim: poll_one_cases)
  show ?thesis
    unfolding consistent_def
  proof (intro allI impI)
    fix b assume "length (broadcasts c') \<le> b"
    then have "length (broadcasts c) \<le> b"
      by (simp add: c')
    then have z: "pending_of b (c\<lparr>main_thread_id := x\<rparr>) = 0"
      and o: "outcomes b c = []" and d: "done_calls b c = []"
      using assms(1) by (simp_all add: consistent_def)
    show "pending_of b c' = 0 \<and> outcomes b c' = [] \<and> done_calls b c' = []"
      using poll_tick_other [OF z, of T] o d by (simp add: c')
  qed
next
  case (Set_buffer_size n)
  then show ?thesis
    using assms by (auto simp: consistent_def)
next
  case (Async_send_to_parent buf n cb)
  then show ?thesis
    using assms by (auto simp: consistent_def)
next
  case (Async_send_to_children buff n cb)
  then show ?thesis
    using assms by (auto simp: consistent_def children_broadcasts children_pending children_done_calls)
next
  case (Register_receive_handler h)
  then show ?thesis
    using assms by (auto simp: consistent_def)
qed

lemma consistent_run:
  assumes "consistent c" and "run calls c = Inr c'"
  shows "consistent c'"
  using assms
proof (induction calls arbitrary: c)
  case Nil
  then show ?case by simp
next
  case (Cons a calls)
  then obtain c1 where c1: "do_call a c = Inr c1" and r: "run calls c1 = Inr c'"
    by (auto split: sum.splits)
  have "consistent c1"
    using Cons.prems(1) c1 by (rule consistent_do_call)
  then show ?case
    using r by (rule Cons.IH)
qed

subsection \<open>The aggregator of one broadcast\<close>

lemma aggregated_issued:
  assumes "consistent c"
  shows "aggregated (length (broadcasts c)) cb (length (children (id' c) (mpi_comm_size c)))
           (pending_of (length (broadcasts c)) (async_send_to_children buff n cb c))
           (async_send_to_children buff n cb c)"
proof -
  let ?b = "length (broadcasts c)"
  have "pending_of ?b c = 0" "outcomes ?b c = []" "done_calls ?b c = []"
    using assms by (simp_all add: consistent_def)
  then show ?thesis
    by (simp add: aggregated_def children_broadcasts children_pending children_done_calls
        conj_all_def)
qed

lemma aggregated_do_call:
  assumes "aggregated b cb n (pending_of b c) c" and "do_call a c = Inr c'"
  shows "aggregated b cb n (pending_of b c') c'"
proof (cases a)
  case (Poll_one t T)
  then obtain x where c': "c' = poll_tick T (c\<lparr>main_thread_id := x\<rparr>)"
    using assms(2) by (auto elim: poll_one_cases)
  have "aggregated b cb n (pending_of b (c\<lparr>main_thread_id := x\<rparr>)) (c\<lparr>main_thread_id := x\<rparr>)"
    using assms(1) by simp
  then show ?thesis
    unfolding c' by (rule poll_tick_aggregated)
next
  case (Set_buffer_size k)
  then show ?thesis
    using assms by (auto simp: aggregated_def)
next
  case (Async_send_to_parent buf k cb')
  then show ?thesis
    using assms by (auto simp: aggregated_def)
next
  case (Async_send_to_children buff k cb')
  have "b < length (broadcasts c)"
    using assms(1) by (simp add: aggregated_def)
  then show ?thesis
    using assms Async_send_to_children
    by (auto simp: aggregated_def children_broadcasts children_pending children_done_calls
        nth_append)
next
  case (Register_receive_handler h)
  then show ?thesis
    using assms by (auto simp: aggregated_def)
qed

lemma aggregated_run:
  assumes "aggregated b cb n (pending_of b c) c" and "run calls c = Inr c'"
  shows "aggregated b cb n (pending_of b c') c'"
  using assms
proof (induction calls arbitrary: c)
  case Nil
  then show ?case by simp
next
  case (Cons a calls)
  then obtain c1 where c1: "do_call a c = Inr c1" and r: "run calls c1 = Inr c'"
    by (auto split: sum.splits)
  have "aggregated b cb n (pending_of b c1) c1"
    using Cons.prems(1) c1 by (rule aggregated_do_call)
  then show ?case
    using r by (rule Cons.IH)
qed

lemma step_outcomes:
  "outcomes b (callback_step c it) = outcomes b c @ (if holds_copy b it then [ok it] else [])"
proof (cases "holds_copy b it")
  case True
  then have cbk: "callback it = broadcast_callback b"
    by (simp add: holds_copy_def)
  show ?thesis
    using True
    by (simp add: callback_step_def cbk outcomes_def BroadcastCallback_call_def Let_def)
next
  case False
  then show ?thesis
    by (simp add: step_other)
qed

lemma loop_outcomes:
  "outcomes b (foldl callback_step c rs) = outcomes b c @ map ok (filter (holds_copy b) rs)"
  by (induction rs arbitrary: c) (simp_all add: step_outcomes)

lemma poll_tick_outcomes:
  "outcomes b (poll_tick T c) = outcomes b c @ map ok (filter (holds_copy b) (found_ready T c))"
  by (simp add: poll_tick_unfold finish_aggregator loop_outcomes partition_aggregator)

text \<open>
  Claim C2. Let \<^verbatim>\<open>async_send_to_children\<close> be called in a state reached from the
  construction, and let any calls follow. Then every send to a child is either still in
  the ledger or has completed and called the aggregator once; there are at most two of
  them; the caller's callback has been called exactly once, with the conjunction of the
  outcomes of the children, if no send to a child is left in the ledger, and not at all
  otherwise. With no children it has been called with success when
  \<^verbatim>\<open>async_send_to_children\<close> returns.
\<close>

theorem fan_out_completes_once:
  assumes "run calls0 (MpiTreeClient_new rank count) = Inr c"
    and "run calls (async_send_to_children buff n cb c) = Inr c'"
  shows "length (outcomes (length (broadcasts c)) c') + pending_of (length (broadcasts c)) c' =
           length (children (id' c) (mpi_comm_size c))
     \<and> length (children (id' c) (mpi_comm_size c)) \<le> 2
     \<and> done_calls (length (broadcasts c)) c' =
         (if pending_of (length (broadcasts c)) c' = 0
          then [(cb, conj_all (outcomes (length (broadcasts c)) c'))] else [])
     \<and> (children (id' c) (mpi_comm_size c) = [] \<longrightarrow>
          done_calls (length (broadcasts c)) (async_send_to_children buff n cb c) = [(cb, True)])"
proof -
  let ?b = "length (broadcasts c)"
  let ?kids = "children (id' c) (mpi_comm_size c)"
  let ?c1 = "async_send_to_children buff n cb c"
  have con: "consistent c"
    using consistent_new assms(1) by (rule consistent_run)
  then have a1: "aggregated ?b cb (length ?kids) (pending_of ?b ?c1) ?c1"
    by (rule aggregated_issued)
  then have a2: "aggregated ?b cb (length ?kids) (pending_of ?b c') c'"
    using assms(2) by (rule aggregated_run)
  have "done_calls ?b c = []"
    using con by (simp add: consistent_def)
  then have e: "?kids = [] \<longrightarrow> done_calls ?b ?c1 = [(cb, True)]"
    by (simp add: children_done_calls)
  have "length ?kids \<le> 2"
    by (simp add: children_def)
  then show ?thesis
    using a2 e by (simp add: aggregated_def)
qed

theorem fan_out_completes_once_witness:
  "run [] (MpiTreeClient_new 0 3) = Inr (MpiTreeClient_new 0 3)
   \<and> (\<exists>c'. run [Poll_one 0 (\<lambda>h. if h = 0 then Complete True 0 True 0 else Pending),
                  Poll_one 0 (\<lambda>h. Complete True 0 False 0)]
               (async_send_to_children [] 0 9 (MpiTreeClient_new 0 3)) = Inr c'
         \<and> outcomes 0 c' = [True, False]
         \<and> pending_of 0 c' = 0
         \<and> done_calls 0 c' = [(9, False)])
   \<and> run [] (MpiTreeClient_new 1 3) = Inr (MpiTreeClient_new 1 3)
   \<and> children (id' (MpiTreeClient_new 1 3)) (mpi_comm_size (MpiTreeClient_new 1 3)) = []
   \<and> done_calls 0 (async_send_to_children [] 0 9 (MpiTreeClient_new 1 3)) = [(9, True)]"
proof -
  define T1 :: transport where "T1 = (\<lambda>h. if h = 0 then Complete True 0 True 0 else Pending)"
  define T2 :: transport where "T2 = (\<lambda>h. Complete True 0 False 0)"
  define r1 where
    "r1 = \<lparr>req = 0, callback = broadcast_callback 0, ok = False, sender = 0, size' = 0\<rparr>"
  define r2 where
    "r2 = \<lparr>req = 1, callback = broadcast_callback 0, ok = False, sender = 0, size' = 0\<rparr>"
  define c0 where "c0 = MpiTreeClient_new 0 3"
  define c1 where "c1 = async_send_to_children [] 0 9 c0"
  define c2 where "c2 = poll_tick T1 (c1\<lparr>main_thread_id := Some 0\<rparr>)"
  define c3 where "c3 = poll_tick T2 (c2\<lparr>main_thread_id := Some 0\<rparr>)"
  have b0: "length (broadcasts c0) = 0"
    by (simp add: c0_def MpiTreeClient_new_def)
  have k: "children (id' c0) (mpi_comm_size c0) = [1, 2]"
    by (simp add: c0_def MpiTreeClient_new_def id'_def children_def word_sless_alt)
  have l1: "ledger c1 = [r1, r2]"
    by (simp add: c1_def ledger_def async_send_to_children_def Let_def k new_request_def
        r1_def r2_def) (simp add: c0_def MpiTreeClient_new_def)
  have m1: "main_thread_id c1 = None"
    by (simp add: c1_def async_send_to_children_def Let_def) (simp add: c0_def MpiTreeClient_new_def)
  have o1: "outcomes 0 c1 = []"
    by (simp add: c1_def) (simp add: outcomes_def c0_def MpiTreeClient_new_def)
  have p2: "poll_one 0 T1 c1 = Inr c2"
    unfolding c2_def using m1 by (intro poll_one_Inr) simp
  have f2: "found_ready T1 c1 = [r1\<lparr>ok := True\<rparr>]" "found_pending T1 c1 = [r2]"
    by (simp_all add: found_ready_def found_pending_def l1 is_ready_def tested_def T1_def
        r1_def r2_def)
  have o2: "outcomes 0 c2 = [True]"
    by (simp add: c2_def poll_tick_outcomes o1 f2 holds_copy_def r1_def)
  have q2: "requests c2 = []"
    using poll_tick_requests_length [of T1 "c1\<lparr>main_thread_id := Some 0\<rparr>"]
    by (simp add: c2_def f2 is_receive_def r1_def)
  have l2: "ledger c2 = [r2]"
    using q2 by (simp add: ledger_def [of c2]) (simp add: c2_def poll_tick_working_set f2)
  have m2: "main_thread_id c2 = Some 0"
    by (simp add: c2_def)
  have p3: "poll_one 0 T2 c2 = Inr c3"
    unfolding c3_def using m2 by (intro poll_one_Inr) simp
  have f3: "found_ready T2 c2 = [r2]" "found_pending T2 c2 = []"
    by (simp_all add: found_ready_def found_pending_def l2 is_ready_def tested_def T2_def r2_def)
  have o3: "outcomes 0 c3 = [True, False]"
    by (simp add: c3_def poll_tick_outcomes o2 f3 holds_copy_def r2_def)
  have q3: "requests c3 = []"
    using poll_tick_requests_length [of T2 "c2\<lparr>main_thread_id := Some 0\<rparr>"]
    by (simp add: c3_def f3 is_receive_def r2_def)
  have "ledger c3 = []"
    using q3 by (simp add: ledger_def [of c3]) (simp add: c3_def poll_tick_working_set f3)
  then have z3: "pending_of 0 c3 = 0"
    by (simp add: pending_of_def)
  have r0: "run [] (MpiTreeClient_new 0 3) = Inr c0"
    by (simp add: c0_def)
  have r3: "run [Poll_one 0 T1, Poll_one 0 T2] (async_send_to_children [] 0 9 c0) = Inr c3"
    using p2 p3 by (simp add: c1_def)
  have "done_calls 0 c3 = [(9, False)]"
    using fan_out_completes_once [OF r0 r3] by (simp add: b0 z3 o3 conj_all_def)
  then have two: "run [] (MpiTreeClient_new 0 3) = Inr c0
      \<and> (\<exists>c'. run [Poll_one 0 T1, Poll_one 0 T2] (async_send_to_children [] 0 9 c0) = Inr c'
          \<and> outcomes 0 c' = [True, False] \<and> pending_of 0 c' = 0
          \<and> done_calls 0 c' = [(9, False)])"
    using r0 r3 o3 z3 by blast
  define d0 where "d0 = MpiTreeClient_new 1 3"
  have s0: "run [] (MpiTreeClient_new 1 3) = Inr d0"
    by (simp add: d0_def)
  have s1: "run [] (async_send_to_children [] 0 9 d0) = Inr (async_send_to_children [] 0 9 d0)"
    by simp
  have kd: "children (id' d0) (mpi_comm_size d0) = []"
    by (simp add: d0_def MpiTreeClient_new_def id'_def children_def word_sless_alt)
  have bd: "length (broadcasts d0) = 0"
    by (simp add: d0_def MpiTreeClient_new_def)
  have "children (id' d0) (mpi_comm_size d0) = [] \<longrightarrow>
      done_calls (length (broadcasts d0)) (async_send_to_children [] 0 9 d0) = [(9, True)]"
    using fan_out_completes_once [OF s0 s1] by blast
  then have "done_calls 0 (async_send_to_children [] 0 9 d0) = [(9, True)]"
    using kd by (simp only: bd)
  then have none: "run [] (MpiTreeClient_new 1 3) = Inr d0
      \<and> children (id' d0) (mpi_comm_size d0) = []
      \<and> done_calls 0 (async_send_to_children [] 0 9 d0) = [(9, True)]"
    using s0 kd by simp
  from two none show ?thesis
    by (simp only: c0_def d0_def T1_def T2_def)
qed

end
